theory Spec2Isabelle
  imports Main "HOL-Library.Multiset" "HOL-Library.Word"
begin

section \<open>Go slices over an explicit store\<close>

text \<open>
  The sequential wrapper \<^verbatim>\<open>Compress[T]\<close> holds one field, \<^verbatim>\<open>data []T\<close>. A Go slice is a
  header (pointer into a backing array, length, capacity); several headers may share one
  backing array, and \<^verbatim>\<open>append\<close> writes into the shared array when capacity is left and
  allocates a new array otherwise. The store is the list of all backing arrays, an address
  is a position in that list, and a header names its array, the offset of its first
  element, its length and its capacity.
\<close>

type_synonym addr = nat

type_synonym 'a heap = "'a list list"

record slice =
  s_arr :: addr
  s_off :: nat
  s_len :: nat
  s_cap :: nat

datatype panic = IndexOutOfRange

text \<open>The elements a header shows: \<^verbatim>\<open>s[0], ..., s[len(s)-1]\<close>.\<close>

definition view :: "'a heap \<Rightarrow> slice \<Rightarrow> 'a list" where
  "view h s = take (s_len s) (drop (s_off s) (h ! s_arr s))"

text \<open>
  A header is valid in a store when its capacity lies inside an allocated array. A header
  of capacity 0 (the nil slice, \<^verbatim>\<open>make([]T, 0)\<close>) needs no array.
\<close>

definition valid :: "'a heap \<Rightarrow> slice \<Rightarrow> bool" where
  "valid h s \<longleftrightarrow> s_len s \<le> s_cap s \<and>
     (0 < s_cap s \<longrightarrow> s_arr s < length h \<and> s_off s + s_cap s \<le> length (h ! s_arr s))"

text \<open>Reading \<^verbatim>\<open>s[i]\<close> inside a range loop: no bounds check, the loop bounds the index.\<close>

definition elem :: "'a heap \<Rightarrow> slice \<Rightarrow> nat \<Rightarrow> 'a" where
  "elem h s i = (h ! s_arr s) ! (s_off s + i)"

text \<open>The index expression \<^verbatim>\<open>s[i]\<close> with Go's run-time bounds check on a signed index.\<close>

definition index_go :: "'a heap \<Rightarrow> slice \<Rightarrow> int \<Rightarrow> panic + 'a" where
  "index_go h s i =
     (if 0 \<le> i \<and> i < int (s_len s) then Inr (elem h s (nat i)) else Inl IndexOutOfRange)"

text \<open>\<^verbatim>\<open>make([]T, n)\<close>: a new array of \<open>n\<close> zero values, length and capacity \<open>n\<close>.\<close>

definition make_slice :: "'a \<Rightarrow> 'a heap \<Rightarrow> nat \<Rightarrow> 'a heap \<times> slice" where
  "make_slice zero h n =
     (h @ [replicate n zero], \<lparr>s_arr = length h, s_off = 0, s_len = n, s_cap = n\<rparr>)"

text \<open>
  \<^verbatim>\<open>append(s, v)\<close>. With capacity left the value is written into the shared array behind
  the last element and the header grows by one. Otherwise a new, larger array is allocated
  and the elements are copied; how much larger is the run-time's choice, here the
  parameter \<open>spare\<close> (the unused capacity the run-time adds for a wanted length), and the
  unused part is zeroed.
\<close>

definition append_go :: "'a \<Rightarrow> (nat \<Rightarrow> nat) \<Rightarrow> 'a heap \<Rightarrow> slice \<Rightarrow> 'a \<Rightarrow> 'a heap \<times> slice" where
  "append_go zero spare h s v =
     (if s_len s < s_cap s
      then (h[s_arr s := (h ! s_arr s)[s_off s + s_len s := v]], s\<lparr>s_len := s_len s + 1\<rparr>)
      else (h @ [view h s @ [v] @ replicate (spare (s_len s + 1)) zero],
            \<lparr>s_arr = length h, s_off = 0, s_len = s_len s + 1,
             s_cap = s_len s + 1 + spare (s_len s + 1)\<rparr>))"


section \<open>The sequential wrapper: package compress\<close>

text \<open>
  \<^verbatim>\<open>type Compress[T any] struct { data []T }\<close>. Methods have a pointer receiver; a method
  that assigns \<^verbatim>\<open>c.data\<close> returns the updated struct. \<open>zero\<close> is the zero value of \<open>T\<close>
  (\<^verbatim>\<open>var value T\<close>).
\<close>

record Compress =
  data :: slice

text \<open>\<^verbatim>\<open>At\<close>: the index is clamped from above, then from below, then read.\<close>

definition Compress_At :: "'a \<Rightarrow> 'a heap \<Rightarrow> Compress \<Rightarrow> int \<Rightarrow> panic + 'a" where
  "Compress_At zero h c index =
     (if s_len (data c) = 0 then Inr zero
      else let index1 = (if index \<ge> int (s_len (data c)) then int (s_len (data c)) - 1 else index);
               index2 = (if index1 < 0 then 0 else index1)
           in index_go h (data c) index2)"

definition Compress_Head :: "'a \<Rightarrow> 'a heap \<Rightarrow> Compress \<Rightarrow> panic + 'a" where
  "Compress_Head zero h c = (if s_len (data c) = 0 then Inr zero else index_go h (data c) 0)"

definition Compress_Tail :: "'a \<Rightarrow> 'a heap \<Rightarrow> Compress \<Rightarrow> panic + 'a" where
  "Compress_Tail zero h c =
     (if s_len (data c) = 0 then Inr zero else index_go h (data c) (int (s_len (data c)) - 1))"

text \<open>\<^verbatim>\<open>Pop\<close> reads the last element and reslices \<^verbatim>\<open>c.data[:lastIndex]\<close>.\<close>

definition Compress_Pop :: "'a \<Rightarrow> 'a heap \<Rightarrow> Compress \<Rightarrow> (panic + 'a) \<times> Compress" where
  "Compress_Pop zero h c =
     (if s_len (data c) = 0 then (Inr zero, c)
      else let lastIndex = int (s_len (data c)) - 1
           in (case index_go h (data c) lastIndex of
                 Inl p \<Rightarrow> (Inl p, c)
               | Inr value \<Rightarrow> (Inr value, c\<lparr>data := (data c)\<lparr>s_len := nat lastIndex\<rparr>\<rparr>)))"

text \<open>\<^verbatim>\<open>Shift\<close> reads the first element and reslices \<^verbatim>\<open>c.data[1:]\<close>.\<close>

definition Compress_Shift :: "'a \<Rightarrow> 'a heap \<Rightarrow> Compress \<Rightarrow> (panic + 'a) \<times> Compress" where
  "Compress_Shift zero h c =
     (if s_len (data c) = 0 then (Inr zero, c)
      else (case index_go h (data c) 0 of
              Inl p \<Rightarrow> (Inl p, c)
            | Inr value \<Rightarrow>
                (Inr value, c\<lparr>data := (data c)\<lparr>s_off := s_off (data c) + 1,
                                               s_len := s_len (data c) - 1,
                                               s_cap := s_cap (data c) - 1\<rparr>\<rparr>)))"

text \<open>\<^verbatim>\<open>Find\<close>: the range loop from index \<open>i\<close>, returning at the first match.\<close>

function Compress_Find_loop :: "'a \<Rightarrow> ('a \<Rightarrow> bool) \<Rightarrow> 'a heap \<Rightarrow> slice \<Rightarrow> nat \<Rightarrow> 'a" where
  "Compress_Find_loop zero predicate h s i =
     (if i < s_len s
      then (let e = elem h s i in if predicate e then e else Compress_Find_loop zero predicate h s (i + 1))
      else zero)"
  by pat_completeness auto
termination
  by (relation "measure (\<lambda>(zero, predicate, h, s, i). s_len s - i)") auto

definition Compress_Find :: "'a \<Rightarrow> 'a heap \<Rightarrow> Compress \<Rightarrow> ('a \<Rightarrow> bool) \<Rightarrow> 'a" where
  "Compress_Find zero h c predicate =
     (if s_len (data c) = 0 then zero else Compress_Find_loop zero predicate h (data c) 0)"

text \<open>
  \<^verbatim>\<open>FlatMap\<close>. The range expression \<^verbatim>\<open>c.data\<close> is evaluated once: the loop runs over the
  header \<open>rng\<close> taken on entry and reads \<^verbatim>\<open>rng[i]\<close> from the store at each iteration, while
  the body reassigns \<^verbatim>\<open>c.data\<close> by \<^verbatim>\<open>append\<close>, which may write into the array \<open>rng\<close> points
  into. The slice returned by \<^verbatim>\<open>transfrom\<close> is a value list: the callback is a pure
  function whose result shares no array with \<^verbatim>\<open>c.data\<close>.
\<close>

fun append_each :: "'a \<Rightarrow> (nat \<Rightarrow> nat) \<Rightarrow> 'a heap \<Rightarrow> slice \<Rightarrow> 'a list \<Rightarrow> 'a heap \<times> slice" where
  "append_each zero spare h cd [] = (h, cd)"
| "append_each zero spare h cd (transfomed # rest) =
     (case append_go zero spare h cd transfomed of
        (h', cd') \<Rightarrow> append_each zero spare h' cd' rest)"

function Compress_FlatMap_loop ::
  "'a \<Rightarrow> (nat \<Rightarrow> nat) \<Rightarrow> ('a \<Rightarrow> 'a list) \<Rightarrow> 'a heap \<Rightarrow> slice \<Rightarrow> nat \<Rightarrow> slice \<Rightarrow> 'a heap \<times> slice" where
  "Compress_FlatMap_loop zero spare transfrom h rng i cd =
     (if i < s_len rng
      then (case append_each zero spare h cd (transfrom (elem h rng i)) of
              (h', cd') \<Rightarrow> Compress_FlatMap_loop zero spare transfrom h' rng (i + 1) cd')
      else (h, cd))"
  by pat_completeness auto
termination
  by (relation "measure (\<lambda>(zero, spare, transfrom, h, rng, i, cd). s_len rng - i)") auto

definition Compress_FlatMap ::
  "'a \<Rightarrow> (nat \<Rightarrow> nat) \<Rightarrow> 'a heap \<Rightarrow> Compress \<Rightarrow> ('a \<Rightarrow> 'a list) \<Rightarrow> 'a heap \<times> Compress" where
  "Compress_FlatMap zero spare h c transfrom =
     (if s_len (data c) = 0 then (h, c)
      else (case Compress_FlatMap_loop zero spare transfrom h (data c) 0 (data c) of
              (h', cd) \<Rightarrow> (h', c\<lparr>data := cd\<rparr>)))"

text \<open>
  \<^verbatim>\<open>Limit\<close>. \<^verbatim>\<open>result := make([]T, len(c.data))\<close> has length \<^verbatim>\<open>len(c.data)\<close>, not 0; the
  loop appends behind it and leaves at \<^verbatim>\<open>count >= n\<close> (the counter is \<open>cnt\<close> here). The method returns a new struct
  and leaves the receiver as it was.
\<close>

function Compress_Limit_loop ::
  "'a \<Rightarrow> (nat \<Rightarrow> nat) \<Rightarrow> int \<Rightarrow> 'a heap \<Rightarrow> slice \<Rightarrow> nat \<Rightarrow> slice \<Rightarrow> int \<Rightarrow> 'a heap \<times> slice" where
  "Compress_Limit_loop zero spare n h rng i result cnt =
     (if i < s_len rng
      then (if cnt \<ge> n then (h, result)
            else (case append_go zero spare h result (elem h rng i) of
                    (h', result') \<Rightarrow>
                      Compress_Limit_loop zero spare n h' rng (i + 1) result' (cnt + 1)))
      else (h, result))"
  by pat_completeness auto
termination
  by (relation "measure (\<lambda>(zero, spare, n, h, rng, i, result, cnt). s_len rng - i)") auto

definition Compress_Limit ::
  "'a \<Rightarrow> (nat \<Rightarrow> nat) \<Rightarrow> 'a heap \<Rightarrow> Compress \<Rightarrow> int \<Rightarrow> 'a heap \<times> Compress" where
  "Compress_Limit zero spare h c n =
     (if s_len (data c) = 0 then (h, c)
      else (case make_slice zero h (s_len (data c)) of
              (h1, result) \<Rightarrow>
                (case Compress_Limit_loop zero spare n h1 (data c) 0 result 0 of
                   (h2, result') \<Rightarrow> (h2, \<lparr>data = result'\<rparr>))))"

text \<open>\<^verbatim>\<open>Collect\<close> (and \<^verbatim>\<open>Result\<close>) return the header \<^verbatim>\<open>c.data\<close>; its elements are read from the store.\<close>

definition Compress_Collect :: "'a heap \<Rightarrow> Compress \<Rightarrow> 'a list" where
  "Compress_Collect h c = view h (data c)"

section \<open>The concurrent pipeline: package stream\<close>

text \<open>
  A \<^verbatim>\<open>Stream[T]\<close> is a receive-only channel; every constructor and every stage makes a new
  unbuffered channel and starts a goroutine that feeds it. The model is an interleaving
  semantics: a configuration holds the goroutines at their blocking points, the set of
  closed channels and the \<^verbatim>\<open>sync.WaitGroup\<close> counters, and one step is one
  synchronisation: a hand-off of a value on an unbuffered channel from a sender to a
  receiver, a \<^verbatim>\<open>close\<close>, a receive that finds its channel closed, \<^verbatim>\<open>wg.Done()\<close> or the
  return of \<^verbatim>\<open>wg.Wait()\<close>. The local computation of a goroutine up to its next blocking
  point (calling the predicate, counting) is part of the step that woke it.
\<close>

type_synonym chan = nat

subsection \<open>The bodies of the stage loops\<close>

text \<open>
  Every stage goroutine is \<^verbatim>\<open>for item := range s.data { ... }\<close>. \<open>on_item\<close> is one
  iteration of the body on a received item: the values it sends on \<^verbatim>\<open>ch\<close>, in order, and
  the locals for the next iteration; \<open>None\<close> is \<^verbatim>\<open>break\<close>. \<open>LimitB n cnt\<close> carries the
  local \<^verbatim>\<open>count\<close> (Go's \<^verbatim>\<open>int\<close>; it counts items sent, so it stays far below \<open>2^63\<close> and is
  an unbounded integer here). \<open>WorkerB wg\<close> is a worker of \<^verbatim>\<open>Parallel\<close> with its WaitGroup.
\<close>

datatype 'a body =
    FilterB "'a \<Rightarrow> bool"
  | MapB "'a \<Rightarrow> 'a"
  | FlatMapB "'a \<Rightarrow> 'a list"
  | LimitB int int
  | WorkerB nat

fun on_item :: "'a body \<Rightarrow> 'a \<Rightarrow> ('a list \<times> 'a body) option" where
  "on_item (FilterB predicate) item =
     Some (if predicate item then [item] else [], FilterB predicate)"
| "on_item (MapB predicate) item = Some ([predicate item], MapB predicate)"
| "on_item (FlatMapB transform) item = Some (transform item, FlatMapB transform)"
| "on_item (LimitB n cnt) item =
     (if cnt \<ge> n then None else Some ([item], LimitB n (cnt + 1)))"
| "on_item (WorkerB wg) item = Some ([item], WorkerB wg)"

text \<open>
  What a goroutine does when its loop is over: the stages run the deferred \<^verbatim>\<open>close(ch)\<close>,
  a worker of \<^verbatim>\<open>Parallel\<close> runs the deferred \<^verbatim>\<open>wg.Done()\<close>.
\<close>

datatype last_act = CloseCh chan | WgDone nat

fun on_exit :: "'a body \<Rightarrow> chan \<Rightarrow> last_act" where
  "on_exit (WorkerB wg) out = WgDone wg"
| "on_exit (FilterB predicate) out = CloseCh out"
| "on_exit (MapB predicate) out = CloseCh out"
| "on_exit (FlatMapB transform) out = CloseCh out"
| "on_exit (LimitB n cnt) out = CloseCh out"

subsection \<open>Goroutines at their blocking points\<close>

text \<open>
  \<^item> \<open>Source out data\<close>: the goroutine of \<^verbatim>\<open>NewStream\<close>, with the items still to be sent; at
    \<^verbatim>\<open>ch <- item\<close>, or at the deferred \<^verbatim>\<open>close(ch)\<close> when none is left.
  \<^item> \<open>Stage inp out b pending\<close>: a stage loop reading \<open>inp\<close> and writing \<open>out\<close>; at
    \<^verbatim>\<open>ch <- x\<close> for the first of the values \<open>pending\<close> of the current iteration, or at the
    receive of \<^verbatim>\<open>range s.data\<close> when none is pending.
  \<^item> \<open>Last l\<close>: the loop is over, one action is left.
  \<^item> \<open>Coordinator wg out\<close>: the goroutine \<^verbatim>\<open>wg.Wait(); close(ch)\<close> of \<^verbatim>\<open>Parallel\<close>, at the wait.
  \<^item> \<open>Exited\<close>: the goroutine has returned.
\<close>

datatype 'a goroutine =
    Source chan "'a list"
  | Stage chan chan "'a body" "'a list"
  | Last last_act
  | Coordinator nat chan
  | Exited

datatype 'a action = Recv chan | Send chan 'a | Close chan | Done nat | Wait nat | Halt

fun act :: "'a goroutine \<Rightarrow> 'a action" where
  "act (Source out []) = Close out"
| "act (Source out (item # rest)) = Send out item"
| "act (Stage inp out b []) = Recv inp"
| "act (Stage inp out b (x # pending)) = Send out x"
| "act (Last (CloseCh ch)) = Close ch"
| "act (Last (WgDone wg)) = Done wg"
| "act (Coordinator wg out) = Wait wg"
| "act Exited = Halt"

text \<open>
  The goroutine after its action: the argument is what a receive got (\<open>Some item\<close>, or
  \<open>None\<close> when the channel is closed and the range loop ends); other actions ignore it.
\<close>

fun after :: "'a goroutine \<Rightarrow> 'a option \<Rightarrow> 'a goroutine" where
  "after (Source out []) r = Exited"
| "after (Source out (item # rest)) r = Source out rest"
| "after (Stage inp out b (x # pending)) r = Stage inp out b pending"
| "after (Stage inp out b []) None = Last (on_exit b out)"
| "after (Stage inp out b []) (Some item) =
     (case on_item b item of
        None \<Rightarrow> Last (on_exit b out)
      | Some (outs, b') \<Rightarrow> Stage inp out b' outs)"
| "after (Last l) r = Exited"
| "after (Coordinator wg out) r = Last (CloseCh out)"
| "after Exited r = Exited"

subsection \<open>The calling goroutine in a terminal operation\<close>

text \<open>
  \<^verbatim>\<open>Collect\<close> appends every received item to \<^verbatim>\<open>result\<close>. \<^verbatim>\<open>Reduce\<close> assigns
  \<^verbatim>\<open>result = reduce(inital, item)\<close>: the first argument is \<^verbatim>\<open>inital\<close>, not \<^verbatim>\<open>result\<close>. Both
  return \<^verbatim>\<open>result\<close> when the channel is closed.
\<close>

datatype 'a retval = RList "'a list" | RVal 'a

datatype 'a caller =
    Collecting chan "'a list"
  | Reducing chan 'a "'a \<Rightarrow> 'a \<Rightarrow> 'a" 'a
  | Returned "'a retval"

fun caller_act :: "'a caller \<Rightarrow> 'a action" where
  "caller_act (Collecting ch result) = Recv ch"
| "caller_act (Reducing ch inital reduce result) = Recv ch"
| "caller_act (Returned r) = Halt"

fun caller_after :: "'a caller \<Rightarrow> 'a option \<Rightarrow> 'a caller" where
  "caller_after (Collecting ch result) (Some item) = Collecting ch (result @ [item])"
| "caller_after (Collecting ch result) None = Returned (RList result)"
| "caller_after (Reducing ch inital reduce result) (Some item) =
     Reducing ch inital reduce (reduce inital item)"
| "caller_after (Reducing ch inital reduce result) None = Returned (RVal result)"
| "caller_after (Returned r) x = Returned r"

fun returned :: "'a caller \<Rightarrow> bool" where
  "returned (Returned r) = True"
| "returned (Collecting ch result) = False"
| "returned (Reducing ch inital reduce result) = False"

subsection \<open>The WaitGroup counter\<close>

text \<open>
  The counter of a \<^verbatim>\<open>sync.WaitGroup\<close> is a signed 32-bit integer. \<^verbatim>\<open>wg.Add(delta)\<close> adds
  the low 32 bits of \<open>delta\<close> to it with wrap-around and panics when the new counter,
  read as a signed value, is negative; \<^verbatim>\<open>wg.Done()\<close> is \<^verbatim>\<open>wg.Add(-1)\<close>; \<^verbatim>\<open>wg.Wait()\<close>
  returns when the counter is 0.
\<close>

type_synonym counter = "32 word"

definition WaitGroup_Add :: "counter \<Rightarrow> int \<Rightarrow> counter" where
  "WaitGroup_Add v delta = v + word_of_int delta"

definition negative_counter :: "counter \<Rightarrow> bool" where
  "negative_counter v \<longleftrightarrow> sint v < 0"

subsection \<open>Configurations and steps\<close>

record 'a config =
  caller :: "'a caller"
  gs :: "'a goroutine list"
  closed :: "chan set"
  wgs :: "counter list"
  panicked :: bool

text \<open>
  The scheduler's choice: a hand-off from goroutine \<open>i\<close> to goroutine \<open>j\<close> or to the caller,
  or a step goroutine \<open>i\<close> or the caller takes alone.
\<close>

datatype event = Handoff nat nat | HandoffCaller nat | Alone nat | AloneCaller

text \<open>
  \<open>fire e c\<close> is the configuration after event \<open>e\<close>, or \<open>None\<close> when \<open>e\<close> is not enabled
  in \<open>c\<close>. A send and a receive on an unbuffered open channel complete together. Go's
  run-time panics are steps into a panicked configuration, which has no further step:
  a send on a closed channel, a close of a closed channel, a negative WaitGroup counter.
\<close>

definition fire :: "event \<Rightarrow> 'a config \<Rightarrow> 'a config option" where
  "fire e c =
     (if panicked c then None
      else case e of
        Handoff i j \<Rightarrow>
          if i < length (gs c) \<and> j < length (gs c) \<and> i \<noteq> j then
            (case act (gs c ! i) of
               Send ch v \<Rightarrow>
                 if act (gs c ! j) = Recv ch \<and> ch \<notin> closed c
                 then Some (c\<lparr>gs := (gs c)[i := after (gs c ! i) None,
                                            j := after (gs c ! j) (Some v)]\<rparr>)
                 else None
             | _ \<Rightarrow> None)
          else None
      | HandoffCaller i \<Rightarrow>
          if i < length (gs c) then
            (case act (gs c ! i) of
               Send ch v \<Rightarrow>
                 if caller_act (caller c) = Recv ch \<and> ch \<notin> closed c
                 then Some (c\<lparr>gs := (gs c)[i := after (gs c ! i) None],
                              caller := caller_after (caller c) (Some v)\<rparr>)
                 else None
             | _ \<Rightarrow> None)
          else None
      | Alone i \<Rightarrow>
          if i < length (gs c) then
            (case act (gs c ! i) of
               Recv ch \<Rightarrow>
                 if ch \<in> closed c
                 then Some (c\<lparr>gs := (gs c)[i := after (gs c ! i) None]\<rparr>)
                 else None
             | Send ch v \<Rightarrow> if ch \<in> closed c then Some (c\<lparr>panicked := True\<rparr>) else None
             | Close ch \<Rightarrow>
                 if ch \<in> closed c then Some (c\<lparr>panicked := True\<rparr>)
                 else Some (c\<lparr>gs := (gs c)[i := after (gs c ! i) None],
                              closed := insert ch (closed c)\<rparr>)
             | Done wg \<Rightarrow>
                 if wg < length (wgs c) \<and> \<not> negative_counter (WaitGroup_Add (wgs c ! wg) (- 1))
                 then Some (c\<lparr>gs := (gs c)[i := after (gs c ! i) None],
                              wgs := (wgs c)[wg := WaitGroup_Add (wgs c ! wg) (- 1)]\<rparr>)
                 else Some (c\<lparr>panicked := True\<rparr>)
             | Wait wg \<Rightarrow>
                 if wg < length (wgs c) \<and> wgs c ! wg = 0
                 then Some (c\<lparr>gs := (gs c)[i := after (gs c ! i) None]\<rparr>)
                 else None
             | Halt \<Rightarrow> None)
          else None
      | AloneCaller \<Rightarrow>
          (case caller_act (caller c) of
             Recv ch \<Rightarrow>
               if ch \<in> closed c then Some (c\<lparr>caller := caller_after (caller c) None\<rparr>)
               else None
           | _ \<Rightarrow> None))"

text \<open>A schedule is a list of events; \<open>run\<close> fires them in order.\<close>

fun run :: "event list \<Rightarrow> 'a config \<Rightarrow> 'a config option" where
  "run [] c = Some c"
| "run (e # es) c = (case fire e c of None \<Rightarrow> None | Some c' \<Rightarrow> run es c')"

text \<open>
  The terminal operation started in \<open>c0\<close> returns \<open>r\<close>: under every schedule the program
  never panics, the caller can only return \<open>r\<close>, some step is enabled as long as the caller
  has not returned (no deadlock), and the schedules have a common bound on their length
  (no infinite run). So every run, continued as long as a step is enabled, makes the
  caller return, and it returns \<open>r\<close>.
\<close>

definition returns :: "'a config \<Rightarrow> 'a retval \<Rightarrow> bool" where
  "returns c0 r \<longleftrightarrow>
     (\<forall>es c. run es c0 = Some c \<longrightarrow>
        \<not> panicked c \<and>
        (if returned (caller c) then caller c = Returned r else \<exists>e c'. fire e c = Some c')) \<and>
     (\<exists>N. \<forall>es c. run es c0 = Some c \<longrightarrow> length es \<le> N)"

text \<open>
  After \<^verbatim>\<open>Parallel\<close> the order of delivery depends on the schedule, so the result is
  described, not named: the same, with a property \<open>Q\<close> that whatever is returned satisfies.
\<close>

definition returns_such :: "'a config \<Rightarrow> ('a retval \<Rightarrow> bool) \<Rightarrow> bool" where
  "returns_such c0 Q \<longleftrightarrow>
     (\<forall>es c. run es c0 = Some c \<longrightarrow>
        \<not> panicked c \<and>
        (if returned (caller c) then \<exists>r. caller c = Returned r \<and> Q r
         else \<exists>e c'. fire e c = Some c')) \<and>
     (\<exists>N. \<forall>es c. run es c0 = Some c \<longrightarrow> length es \<le> N)"

subsection \<open>The operations of the package\<close>

text \<open>
  A stream value is the struct's channel \<open>stream_data\<close> (\<^verbatim>\<open>data <-chan T\<close>) together with the
  program state the chain of calls has built so far: the goroutines started, the number
  of channels made (the next \<^verbatim>\<open>make(chan T)\<close> is that number), the WaitGroups, and
  whether a call has panicked. The terminal operation starts in the configuration that has
  every goroutine of the chain at its first blocking point: a step that goroutines take
  among themselves while later calls of the chain are still to come is a step from that
  configuration too, since the goroutines started later take no part in it.
\<close>

record 'a Stream =
  stream_data :: chan
  spawned :: "'a goroutine list"
  made :: nat
  wait_groups :: "counter list"
  crashed :: bool

definition NewStream :: "'a list \<Rightarrow> 'a Stream" where
  "NewStream data_in =
     \<lparr>stream_data = 0, spawned = [Source 0 data_in], made = 1, wait_groups = [],
      crashed = False\<rparr>"

text \<open>A stage: make \<open>ch\<close>, start the loop from \<^verbatim>\<open>s.data\<close> to \<open>ch\<close>, return the stream of \<open>ch\<close>.\<close>

definition stage :: "'a Stream \<Rightarrow> 'a body \<Rightarrow> 'a Stream" where
  "stage s b =
     (let ch = made s
      in s\<lparr>stream_data := ch, spawned := spawned s @ [Stage (stream_data s) ch b []],
           made := ch + 1\<rparr>)"

definition Stream_Filter :: "'a Stream \<Rightarrow> ('a \<Rightarrow> bool) \<Rightarrow> 'a Stream" where
  "Stream_Filter s predicate = stage s (FilterB predicate)"

definition Stream_Map :: "'a Stream \<Rightarrow> ('a \<Rightarrow> 'a) \<Rightarrow> 'a Stream" where
  "Stream_Map s predicate = stage s (MapB predicate)"

definition Stream_FlatMap :: "'a Stream \<Rightarrow> ('a \<Rightarrow> 'a list) \<Rightarrow> 'a Stream" where
  "Stream_FlatMap s transform = stage s (FlatMapB transform)"

text \<open>\<^verbatim>\<open>Limit\<close> starts with \<^verbatim>\<open>count := 0\<close>.\<close>

definition Stream_Limit :: "'a Stream \<Rightarrow> int \<Rightarrow> 'a Stream" where
  "Stream_Limit s n = stage s (LimitB n 0)"

text \<open>
  \<^verbatim>\<open>Parallel\<close>: \<^verbatim>\<open>wg.Add(workers)\<close> on a new WaitGroup (counter 0), which panics when the
  32-bit counter comes out negative, as it does for \<open>workers < 0\<close> and for
  \<open>2^31 \<le> workers < 2^32\<close>; then \<open>workers\<close> goroutines that all read \<^verbatim>\<open>s.data\<close> and all write
  \<open>ch\<close>, then the goroutine that waits and closes.
\<close>

definition Stream_Parallel :: "'a Stream \<Rightarrow> int \<Rightarrow> 'a Stream" where
  "Stream_Parallel s workers =
     (let ch = made s; wg = length (wait_groups s)
      in s\<lparr>stream_data := ch,
           spawned := spawned s @ replicate (nat workers) (Stage (stream_data s) ch (WorkerB wg) [])
                        @ [Coordinator wg ch],
           made := ch + 1,
           wait_groups := wait_groups s @ [WaitGroup_Add 0 workers],
           crashed := (crashed s \<or> negative_counter (WaitGroup_Add 0 workers))\<rparr>)"

text \<open>The terminal operations: the caller starts its receive loop.\<close>

definition Stream_Collect :: "'a Stream \<Rightarrow> 'a config" where
  "Stream_Collect s =
     \<lparr>caller = Collecting (stream_data s) [], gs = spawned s, closed = {},
      wgs = wait_groups s, panicked = crashed s\<rparr>"

definition Stream_Reduce :: "'a Stream \<Rightarrow> 'a \<Rightarrow> ('a \<Rightarrow> 'a \<Rightarrow> 'a) \<Rightarrow> 'a config" where
  "Stream_Reduce s inital reduce =
     \<lparr>caller = Reducing (stream_data s) inital reduce inital, gs = spawned s, closed = {},
      wgs = wait_groups s, panicked = crashed s\<rparr>"


section \<open>Notions used in the proofs\<close>

text \<open>
  Two headers in one store, for the loops that read one slice while appending to another:
  \<open>rng\<close> is non-empty storage, and the next write of \<open>append\<close> through \<open>cd\<close> lies in another
  array or behind the elements \<open>rng\<close> shows.
\<close>

definition apart :: "'a heap \<Rightarrow> slice \<Rightarrow> slice \<Rightarrow> bool" where
  "apart h rng cd \<longleftrightarrow> valid h rng \<and> valid h cd \<and> 0 < s_cap rng \<and>
     (s_arr rng \<noteq> s_arr cd \<or> s_off rng + s_len rng \<le> s_off cd + s_len cd)"

subsection \<open>What a chain of stages computes\<close>

text \<open>
  The proofs about sequential chains compare the interleaving semantics with what the
  chain computes as a function: \<open>run_body b inp\<close> is everything a stage loop sends when it
  receives \<open>inp\<close>, \<open>emits g inp\<close> is everything goroutine \<open>g\<close> will still send from its current
  blocking point when \<open>inp\<close> is still to arrive, \<open>flow\<close> passes that through the goroutines
  in order, and \<open>outcome\<close> is what the caller returns when \<open>inp\<close> is still to arrive. \<open>cost\<close>
  and \<open>todo\<close> bound the number of steps left. \<open>wf_at\<close> describes goroutine \<open>i\<close> of a
  sequential chain at run time: it writes channel \<open>i\<close> and reads channel \<open>i - 1\<close>, and channel
  \<open>i\<close> is closed exactly when it has exited. \<open>pipeline s\<close> says that the stream \<open>s\<close> is such a
  chain, as \<^verbatim>\<open>NewStream\<close> followed by \<^verbatim>\<open>Filter\<close>, \<^verbatim>\<open>Map\<close>, \<^verbatim>\<open>FlatMap\<close> and \<^verbatim>\<open>Limit\<close> builds it.
\<close>

fun run_body :: "'a body \<Rightarrow> 'a list \<Rightarrow> 'a list" where
  "run_body b [] = []"
| "run_body b (item # rest) =
     (case on_item b item of None \<Rightarrow> [] | Some (outs, b') \<Rightarrow> outs @ run_body b' rest)"

fun emits :: "'a goroutine \<Rightarrow> 'a list \<Rightarrow> 'a list" where
  "emits (Source out data_in) inp = data_in"
| "emits (Stage i out b pending) inp = pending @ run_body b inp"
| "emits (Last l) inp = []"
| "emits (Coordinator wg out) inp = []"
| "emits Exited inp = []"

fun flow :: "'a list \<Rightarrow> 'a goroutine list \<Rightarrow> 'a list" where
  "flow inp [] = inp"
| "flow inp (g # rest) = flow (emits g inp) rest"

fun outcome :: "'a caller \<Rightarrow> 'a list \<Rightarrow> 'a retval" where
  "outcome (Collecting ch result) inp = RList (result @ inp)"
| "outcome (Reducing ch inital reduce result) inp =
     RVal (if inp = [] then result else reduce inital (last inp))"
| "outcome (Returned r) inp = r"

fun cost :: "'a goroutine \<Rightarrow> nat" where
  "cost (Source out data_in) = 1"
| "cost (Stage i out b pending) = 2"
| "cost (Last l) = 1"
| "cost (Coordinator wg out) = 2"
| "cost Exited = 0"

fun todo :: "'a list \<Rightarrow> 'a goroutine list \<Rightarrow> nat" where
  "todo inp [] = 0"
| "todo inp (g # rest) = length (emits g inp) + cost g + todo (emits g inp) rest"

definition effort :: "'a config \<Rightarrow> nat" where
  "effort c = todo [] (gs c) + (if returned (caller c) then 0 else 1)"

fun sequential :: "'a body \<Rightarrow> bool" where
  "sequential (WorkerB wg) = False"
| "sequential (FilterB predicate) = True"
| "sequential (MapB predicate) = True"
| "sequential (FlatMapB transform) = True"
| "sequential (LimitB n cnt) = True"

fun wf_at :: "chan set \<Rightarrow> nat \<Rightarrow> 'a goroutine \<Rightarrow> bool" where
  "wf_at cl i (Source out data_in) \<longleftrightarrow> i = 0 \<and> out = 0 \<and> 0 \<notin> cl"
| "wf_at cl i (Stage inp out b pending) \<longleftrightarrow> i = Suc inp \<and> out = i \<and> sequential b \<and> i \<notin> cl"
| "wf_at cl i (Last l) \<longleftrightarrow> l = CloseCh i \<and> i \<notin> cl"
| "wf_at cl i (Coordinator wg out) \<longleftrightarrow> False"
| "wf_at cl i Exited \<longleftrightarrow> i \<in> cl"

fun listens :: "chan \<Rightarrow> 'a caller \<Rightarrow> bool" where
  "listens k (Collecting ch result) \<longleftrightarrow> ch = k"
| "listens k (Reducing ch inital reduce result) \<longleftrightarrow> ch = k"
| "listens k (Returned r) \<longleftrightarrow> True"

definition chain_ok :: "'a goroutine list \<Rightarrow> chan set \<Rightarrow> bool" where
  "chain_ok g cl \<longleftrightarrow> g \<noteq> [] \<and> (\<forall>i<length g. wf_at cl i (g ! i))"

definition pipe_inv :: "'a config \<Rightarrow> bool" where
  "pipe_inv c \<longleftrightarrow>
     \<not> panicked c \<and> chain_ok (gs c) (closed c) \<and> listens (length (gs c) - 1) (caller c)"

definition pipeline :: "'a Stream \<Rightarrow> bool" where
  "pipeline s \<longleftrightarrow>
     \<not> crashed s \<and> chain_ok (spawned s) {} \<and> stream_data s = length (spawned s) - 1 \<and>
     made s = length (spawned s)"

definition delivers :: "'a Stream \<Rightarrow> 'a list" where
  "delivers s = flow [] (spawned s)"


subsection \<open>The fan-out of Parallel at run time\<close>

text \<open>
  The configuration of \<^verbatim>\<open>NewStream(S).Parallel(K).Collect()\<close> has the source at position 0,
  the \<open>K\<close> workers at positions \<open>1..K\<close> and the coordinator at position \<open>K + 1\<close>; channel 0 is
  the source's, channel 1 the shared output. \<open>held\<close> is what a goroutine still has to pass
  on, \<open>owes g\<close> is 1 while \<open>g\<close> has its \<^verbatim>\<open>wg.Done()\<close> ahead, \<open>weight\<close> bounds the steps left.
  \<open>par_inv\<close> is the invariant of the runs: every goroutine is at a point of its role, the
  WaitGroup counter is the number of workers that still owe their \<^verbatim>\<open>Done\<close> (a number below
  \<open>2^31\<close>, so the 32-bit counter holds it), the coordinator
  leaves its wait only at counter 0, and the items collected, held by the workers and left
  in the source are together the items of \<open>S\<close> (in the order of \<open>S\<close> when \<open>K = 1\<close>).
\<close>

fun held :: "'a goroutine \<Rightarrow> 'a list" where
  "held (Source out data_in) = data_in"
| "held (Stage inp out b pending) = pending"
| "held (Last l) = []"
| "held (Coordinator wg out) = []"
| "held Exited = []"

fun owes :: "'a goroutine \<Rightarrow> int" where
  "owes (Stage inp out b pending) = 1"
| "owes (Last (WgDone wg)) = 1"
| "owes (Last (CloseCh ch)) = 0"
| "owes (Source out data_in) = 0"
| "owes (Coordinator wg out) = 0"
| "owes Exited = 0"

fun weight :: "'a goroutine \<Rightarrow> nat" where
  "weight (Source out data_in) = 2 * length data_in + 1"
| "weight (Stage inp out b pending) = length pending + 2"
| "weight (Last l) = 1"
| "weight (Coordinator wg out) = 2"
| "weight Exited = 0"

fun source_ok :: "chan set \<Rightarrow> 'a goroutine \<Rightarrow> bool" where
  "source_ok cl (Source out data_in) \<longleftrightarrow> out = 0 \<and> 0 \<notin> cl"
| "source_ok cl Exited \<longleftrightarrow> 0 \<in> cl"
| "source_ok cl (Stage inp out b pending) \<longleftrightarrow> False"
| "source_ok cl (Last l) \<longleftrightarrow> False"
| "source_ok cl (Coordinator wg out) \<longleftrightarrow> False"

fun worker_ok :: "chan set \<Rightarrow> 'a goroutine \<Rightarrow> bool" where
  "worker_ok cl (Stage inp out b pending) \<longleftrightarrow>
     inp = 0 \<and> out = 1 \<and> b = WorkerB 0 \<and> length pending \<le> 1"
| "worker_ok cl (Last l) \<longleftrightarrow> l = WgDone 0 \<and> 0 \<in> cl"
| "worker_ok cl Exited \<longleftrightarrow> 0 \<in> cl"
| "worker_ok cl (Source out data_in) \<longleftrightarrow> False"
| "worker_ok cl (Coordinator wg out) \<longleftrightarrow> False"

fun coord_ok :: "chan set \<Rightarrow> int \<Rightarrow> 'a goroutine \<Rightarrow> bool" where
  "coord_ok cl w (Coordinator wg out) \<longleftrightarrow> wg = 0 \<and> out = 1 \<and> 1 \<notin> cl"
| "coord_ok cl w (Last l) \<longleftrightarrow> l = CloseCh 1 \<and> 1 \<notin> cl \<and> w = 0"
| "coord_ok cl w Exited \<longleftrightarrow> 1 \<in> cl \<and> w = 0"
| "coord_ok cl w (Source out data_in) \<longleftrightarrow> False"
| "coord_ok cl w (Stage inp out b pending) \<longleftrightarrow> False"

definition role_ok :: "nat \<Rightarrow> chan set \<Rightarrow> int \<Rightarrow> nat \<Rightarrow> 'a goroutine \<Rightarrow> bool" where
  "role_ok K cl w i g =
     (if i = 0 then source_ok cl g else if i \<le> K then worker_ok cl g else coord_ok cl w g)"

fun collected :: "'a caller \<Rightarrow> 'a list" where
  "collected (Collecting ch result) = result"
| "collected (Returned (RList result)) = result"
| "collected (Returned (RVal v)) = []"
| "collected (Reducing ch inital reduce result) = []"

fun collector_ok :: "chan set \<Rightarrow> 'a caller \<Rightarrow> bool" where
  "collector_ok cl (Collecting ch result) \<longleftrightarrow> ch = 1"
| "collector_ok cl (Returned (RList result)) \<longleftrightarrow> 1 \<in> cl"
| "collector_ok cl (Returned (RVal v)) \<longleftrightarrow> False"
| "collector_ok cl (Reducing ch inital reduce result) \<longleftrightarrow> False"

definition par_inv :: "nat \<Rightarrow> 'a list \<Rightarrow> 'a config \<Rightarrow> bool" where
  "par_inv K S c \<longleftrightarrow>
     \<not> panicked c \<and> length (gs c) = K + 2 \<and> 0 < K \<and>
     (\<forall>i<K + 2. role_ok K (closed c) (sum_list (map owes (gs c))) i (gs c ! i)) \<and>
     wgs c = [word_of_int (sum_list (map owes (gs c)))] \<and>
     sum_list (map owes (gs c)) < 2 ^ 31 \<and>
     collector_ok (closed c) (caller c) \<and>
     mset (collected (caller c)) + sum_list (map (\<lambda>g. mset (held g)) (gs c)) = mset S \<and>
     (K = 1 \<longrightarrow> collected (caller c) @ held (gs c ! 1) @ held (gs c ! 0) = S)"

definition par_effort :: "'a config \<Rightarrow> nat" where
  "par_effort c = sum_list (map weight (gs c)) + (if returned (caller c) then 0 else 1)"


section \<open>Properties of slices and of the wrapper\<close>

lemma length_view: "valid h s \<Longrightarrow> length (view h s) = s_len s"
  by (auto simp: valid_def view_def)

lemma elem_view: "valid h s \<Longrightarrow> i < s_len s \<Longrightarrow> elem h s i = view h s ! i"
  by (auto simp: valid_def view_def elem_def)

lemma take_drop_update_behind:
  "k + n \<le> i \<Longrightarrow> take n (drop k (xs[i := v])) = take n (drop k xs)"
  by (simp add: drop_update_swap)

lemma append_go_view:
  assumes "valid h s" "append_go zero spare h s v = (h', s')"
  shows "view h' s' = view h s @ [v]" and "valid h' s'"
proof -
  show "view h' s' = view h s @ [v]"
  proof (cases "s_len s < s_cap s")
    case True
    with assms have A: "s_arr s < length h" "s_off s + s_len s < length (h ! s_arr s)"
      by (auto simp: valid_def)
    from True assms(2) have h': "h' = h[s_arr s := (h ! s_arr s)[s_off s + s_len s := v]]"
      and s': "s' = s\<lparr>s_len := s_len s + 1\<rparr>"
      by (auto simp: append_go_def)
    show ?thesis using A
      by (simp add: h' s' view_def take_Suc_conv_app_nth drop_update_swap)
  next
    case False
    with assms(2) have "h' = h @ [view h s @ [v] @ replicate (spare (s_len s + 1)) zero]"
      and "s' = \<lparr>s_arr = length h, s_off = 0, s_len = s_len s + 1,
                 s_cap = s_len s + 1 + spare (s_len s + 1)\<rparr>"
      by (auto simp: append_go_def)
    then show ?thesis
      using length_view[OF assms(1)] by (simp add: view_def)
  qed
  show "valid h' s'"
    using assms length_view[OF assms(1)]
    by (auto simp: append_go_def valid_def nth_list_update split: if_splits)
qed

lemma append_go_apart:
  assumes "apart h rng cd" "append_go zero spare h cd v = (h', cd')"
  shows "apart h' rng cd'" and "view h' rng = view h rng"
proof -
  from assms(1) have vr: "valid h rng" and vc: "valid h cd" and cap: "0 < s_cap rng"
    and sep: "s_arr rng \<noteq> s_arr cd \<or> s_off rng + s_len rng \<le> s_off cd + s_len cd"
    by (auto simp: apart_def)
  have vc': "valid h' cd'" using append_go_view(2)[OF vc assms(2)] .
  show "view h' rng = view h rng"
    using vr vc cap sep assms(2)
    by (auto simp: append_go_def view_def valid_def nth_append nth_list_update
        take_drop_update_behind split: if_splits)
  have "valid h' rng"
    using vr cap assms(2)
    by (cases "s_arr rng = s_arr cd")
       (auto simp: append_go_def valid_def nth_append split: if_splits)
  moreover have "s_arr rng \<noteq> s_arr cd' \<or> s_off rng + s_len rng \<le> s_off cd' + s_len cd'"
    using vr cap sep assms(2)
    by (auto simp: append_go_def valid_def split: if_splits)
  ultimately show "apart h' rng cd'" using vc' cap by (simp add: apart_def)
qed

lemma append_each_apart:
  "apart h rng cd \<Longrightarrow> append_each zero spare h cd ts = (h', cd') \<Longrightarrow>
     apart h' rng cd' \<and> view h' rng = view h rng \<and> view h' cd' = view h cd @ ts"
proof (induction ts arbitrary: h cd)
  case Nil
  then show ?case by simp
next
  case (Cons t ts)
  obtain h1 cd1 where a: "append_go zero spare h cd t = (h1, cd1)"
    by (cases "append_go zero spare h cd t")
  from Cons.prems(1) have vc: "valid h cd" by (simp add: apart_def)
  note s1 = append_go_apart[OF Cons.prems(1) a] append_go_view(1)[OF vc a]
  from Cons.prems(2) a have "append_each zero spare h1 cd1 ts = (h', cd')" by simp
  from Cons.IH[OF s1(1) this] s1(2,3) show ?case by simp
qed

lemma Compress_FlatMap_loop_view:
  "apart h rng cd \<Longrightarrow> Compress_FlatMap_loop zero spare f h rng i cd = (h', cd') \<Longrightarrow>
     view h' cd' = view h cd @ concat (map f (drop i (view h rng)))"
proof (induction zero spare f h rng i cd rule: Compress_FlatMap_loop.induct)
  case (1 zero spare f h rng i cd)
  show ?case
  proof (cases "i < s_len rng")
    case False
    with "1.prems" have "length (view h rng) \<le> i" "h' = h" "cd' = cd"
      by (auto simp: apart_def length_view)
    then show ?thesis by simp
  next
    case True
    obtain h1 cd1 where a: "append_each zero spare h cd (f (elem h rng i)) = (h1, cd1)"
      by (cases "append_each zero spare h cd (f (elem h rng i))")
    note s1 = append_each_apart[OF "1.prems"(1) a]
    from "1.prems"(2) True a have r: "Compress_FlatMap_loop zero spare f h1 rng (i + 1) cd1 = (h', cd')"
      by simp
    from "1.prems"(1) have vr: "valid h rng" by (simp add: apart_def)
    have "view h' cd' = view h1 cd1 @ concat (map f (drop (i + 1) (view h1 rng)))"
      using "1.IH"[OF True a[symmetric] _ r] s1 by simp
    moreover have "drop i (view h rng) = elem h rng i # drop (i + 1) (view h rng)"
      using True vr by (simp add: elem_view length_view Cons_nth_drop_Suc)
    ultimately show ?thesis using s1 by simp
  qed
qed

lemma Compress_Limit_loop_view:
  "apart h rng res \<Longrightarrow> Compress_Limit_loop zero spare n h rng i res cnt = (h', res') \<Longrightarrow>
     view h' res' = view h res @ take (nat (n - cnt)) (drop i (view h rng))"
proof (induction zero spare n h rng i res cnt rule: Compress_Limit_loop.induct)
  case (1 zero spare n h rng i res cnt)
  show ?case
  proof (cases "i < s_len rng \<and> cnt < n")
    case False
    with "1.prems" have "(length (view h rng) \<le> i \<or> n \<le> cnt)" "h' = h" "res' = res"
      by (auto simp: apart_def length_view split: if_splits)
    then show ?thesis by auto
  next
    case True
    obtain h1 res1 where a: "append_go zero spare h res (elem h rng i) = (h1, res1)"
      by (cases "append_go zero spare h res (elem h rng i)")
    from "1.prems"(1) have vr: "valid h rng" and vres: "valid h res" by (simp_all add: apart_def)
    note s1 = append_go_apart[OF "1.prems"(1) a] append_go_view(1)[OF vres a]
    from "1.prems"(2) True a
    have r: "Compress_Limit_loop zero spare n h1 rng (i + 1) res1 (cnt + 1) = (h', res')"
      by simp
    have "view h' res' = view h1 res1 @ take (nat (n - (cnt + 1))) (drop (i + 1) (view h1 rng))"
      using "1.IH"[OF _ _ a[symmetric] s1(1) r] True by simp
    moreover have "drop i (view h rng) = elem h rng i # drop (i + 1) (view h rng)"
      using True vr by (simp add: elem_view length_view Cons_nth_drop_Suc)
    moreover have "nat (n - cnt) = Suc (nat (n - (cnt + 1)))" using True by linarith
    ultimately show ?thesis using s1 by simp
  qed
qed


lemma nonempty_len: "valid h (data c) \<Longrightarrow> Compress_Collect h c \<noteq> [] \<Longrightarrow> 0 < s_len (data c)"
  by (metis Compress_Collect_def length_view length_greater_0_conv)

text \<open>
  Claim C8. The bounds-related edge cases of the wrapper never panic. On a non-empty
  \<^verbatim>\<open>Compress\<close>, \<^verbatim>\<open>At(i)\<close> returns, for every integer \<open>i\<close>, the element at \<open>i\<close> clamped into
  \<open>[0, len - 1]\<close>. On an empty one, \<^verbatim>\<open>At\<close>, \<^verbatim>\<open>Head\<close>, \<^verbatim>\<open>Tail\<close>, \<^verbatim>\<open>Pop\<close>, \<^verbatim>\<open>Shift\<close> and
  \<^verbatim>\<open>Find\<close> each return the zero value of \<open>T\<close> (and \<^verbatim>\<open>Pop\<close>, \<^verbatim>\<open>Shift\<close> leave the receiver as
  it was).
\<close>

theorem edge_cases_never_fail:
  assumes "valid h (data c)"
  shows "(Compress_Collect h c \<noteq> [] \<longrightarrow>
            Compress_At zero h c i =
              Inr (Compress_Collect h c ! nat (max 0 (min i (int (length (Compress_Collect h c)) - 1))))) \<and>
         (Compress_Collect h c = [] \<longrightarrow>
            Compress_At zero h c i = Inr zero \<and> Compress_Head zero h c = Inr zero \<and> Compress_Tail zero h c = Inr zero \<and>
            Compress_Pop zero h c = (Inr zero, c) \<and> Compress_Shift zero h c = (Inr zero, c) \<and>
            Compress_Find zero h c predicate = zero)"
proof -
  have len: "length (Compress_Collect h c) = s_len (data c)"
    using assms by (simp add: Compress_Collect_def length_view)
  have nonempty: "Compress_At zero h c i =
      Inr (Compress_Collect h c ! nat (max 0 (min i (int (length (Compress_Collect h c)) - 1))))"
    if "Compress_Collect h c \<noteq> []"
  proof -
    from that assms have pos: "0 < s_len (data c)" by (rule nonempty_len[rotated])
    let ?j = "max 0 (min i (int (s_len (data c)) - 1))"
    have j: "0 \<le> ?j" "?j < int (s_len (data c))" using pos by auto
    have "Compress_At zero h c i = index_go h (data c) ?j"
      using pos by (auto simp: Compress_At_def Let_def max_def min_def)
    also have "\<dots> = Inr (elem h (data c) (nat ?j))"
      using j by (simp add: index_go_def)
    also have "elem h (data c) (nat ?j) = view h (data c) ! nat ?j"
      using j assms by (intro elem_view) auto
    finally show ?thesis unfolding len by (simp add: Compress_Collect_def)
  qed
  have empty: "Compress_At zero h c i = Inr zero \<and> Compress_Head zero h c = Inr zero \<and> Compress_Tail zero h c = Inr zero \<and>
      Compress_Pop zero h c = (Inr zero, c) \<and> Compress_Shift zero h c = (Inr zero, c) \<and>
      Compress_Find zero h c predicate = zero"
    if "Compress_Collect h c = []"
  proof -
    from that len have "s_len (data c) = 0" by simp
    then show ?thesis
      by (simp add: Compress_At_def Compress_Head_def Compress_Tail_def Compress_Pop_def Compress_Shift_def Compress_Find_def)
  qed
  from nonempty empty show ?thesis by blast
qed

theorem edge_cases_never_fail_witness:
  "valid [[10, 20, 30 :: int]] \<lparr>s_arr = 0, s_off = 0, s_len = 3, s_cap = 3\<rparr> \<and>
   Compress_At 0 [[10, 20, 30 :: int]] \<lparr>data = \<lparr>s_arr = 0, s_off = 0, s_len = 3, s_cap = 3\<rparr>\<rparr> 7 = Inr 30 \<and>
   Compress_At 0 [[10, 20, 30 :: int]] \<lparr>data = \<lparr>s_arr = 0, s_off = 0, s_len = 3, s_cap = 3\<rparr>\<rparr> (- 2) = Inr 10 \<and>
   valid ([] :: int heap) \<lparr>s_arr = 0, s_off = 0, s_len = 0, s_cap = 0\<rparr> \<and>
   Compress_Head 0 ([] :: int heap) \<lparr>data = \<lparr>s_arr = 0, s_off = 0, s_len = 0, s_cap = 0\<rparr>\<rparr> = Inr 0 \<and>
   Compress_Find 0 ([] :: int heap) \<lparr>data = \<lparr>s_arr = 0, s_off = 0, s_len = 0, s_cap = 0\<rparr>\<rparr> (\<lambda>e. e = 20) = 0"
proof -
  let ?s = "\<lparr>s_arr = 0, s_off = 0, s_len = 3, s_cap = 3\<rparr>"
  let ?e = "\<lparr>s_arr = 0, s_off = 0, s_len = 0, s_cap = 0\<rparr>"
  have v: "valid [[10, 20, 30 :: int]] (data \<lparr>data = ?s\<rparr>)" by (simp add: valid_def)
  have ve: "valid ([] :: int heap) (data \<lparr>data = ?e\<rparr>)" by (simp add: valid_def)
  show ?thesis
    using v ve
      edge_cases_never_fail[OF v, where i = 7 and zero = 0 and predicate = "\<lambda>e. e = 20"]
      edge_cases_never_fail[OF v, where i = "- 2" and zero = 0 and predicate = "\<lambda>e. e = 20"]
      edge_cases_never_fail[OF ve, where i = 0 and zero = 0 and predicate = "\<lambda>e. e = 20"]
    by (simp add: Compress_Collect_def view_def)
qed

text \<open>
  Claim C10. On a \<^verbatim>\<open>Compress\<close> whose data is the non-empty sequence \<open>x1..xk\<close>,
  \<^verbatim>\<open>FlatMap(f)\<close> leaves the receiver with the original elements \<open>x1..xk\<close> followed by
  \<open>f(x1) ++ ... ++ f(xk)\<close>: the originals stay, and the loop covers the original \<open>k\<close>
  elements only, although the data grows (and may move to a new array) while it runs.
  This holds for every store, every capacity of the receiver's slice and every growth
  policy of \<^verbatim>\<open>append\<close>.
\<close>

theorem FlatMap_keeps_originals:
  assumes "valid h (data c)" and "Compress_Collect h c \<noteq> []"
    and "Compress_FlatMap zero spare h c transfrom = (h', c')"
  shows "Compress_Collect h' c' = Compress_Collect h c @ concat (map transfrom (Compress_Collect h c))"
proof -
  from assms(1,2) have pos: "0 < s_len (data c)" by (rule nonempty_len)
  with assms(1) have ap: "apart h (data c) (data c)"
    by (auto simp: apart_def valid_def)
  obtain h1 cd where l: "Compress_FlatMap_loop zero spare transfrom h (data c) 0 (data c) = (h1, cd)"
    by (cases "Compress_FlatMap_loop zero spare transfrom h (data c) 0 (data c)")
  with assms(3) pos have "h' = h1" "c' = c\<lparr>data := cd\<rparr>"
    by (auto simp: Compress_FlatMap_def)
  with Compress_FlatMap_loop_view[OF ap l] show ?thesis
    by (simp add: Compress_Collect_def)
qed


theorem FlatMap_keeps_originals_witness:
  "valid [[1, 2, 7, 7, 7 :: int]] \<lparr>s_arr = 0, s_off = 0, s_len = 2, s_cap = 3\<rparr> \<and>
   Compress_FlatMap 0 (\<lambda>n. n) [[1, 2, 7, 7, 7 :: int]]
       \<lparr>data = \<lparr>s_arr = 0, s_off = 0, s_len = 2, s_cap = 3\<rparr>\<rparr> (\<lambda>x. [10 * x, 10 * x + 1]) =
     ([[1, 2, 10, 7, 7], [1, 2, 10, 11, 20, 21, 0, 0]],
      \<lparr>data = \<lparr>s_arr = 1, s_off = 0, s_len = 6, s_cap = 8\<rparr>\<rparr>) \<and>
   Compress_Collect [[1, 2, 10, 7, 7], [1, 2, 10, 11, 20, 21, 0, 0 :: int]]
       \<lparr>data = \<lparr>s_arr = 1, s_off = 0, s_len = 6, s_cap = 8\<rparr>\<rparr> = [1, 2, 10, 11, 20, 21]"
proof -
  let ?c = "\<lparr>data = \<lparr>s_arr = 0, s_off = 0, s_len = 2, s_cap = 3\<rparr>\<rparr>"
  have v: "valid [[1, 2, 7, 7, 7 :: int]] (data ?c)" by (simp add: valid_def)
  have ne: "Compress_Collect [[1, 2, 7, 7, 7 :: int]] ?c \<noteq> []"
    by (simp add: Compress_Collect_def view_def)
  have run: "Compress_FlatMap 0 (\<lambda>n. n) [[1, 2, 7, 7, 7 :: int]] ?c (\<lambda>x. [10 * x, 10 * x + 1]) =
     ([[1, 2, 10, 7, 7], [1, 2, 10, 11, 20, 21, 0, 0]],
      \<lparr>data = \<lparr>s_arr = 1, s_off = 0, s_len = 6, s_cap = 8\<rparr>\<rparr>)"
    by code_simp
  from FlatMap_keeps_originals[OF v ne run] v run show ?thesis
    by (simp add: Compress_Collect_def view_def)
qed

text \<open>
  Claim C9. On a \<^verbatim>\<open>Compress\<close> whose data is non-empty of length \<open>L\<close>, and for \<open>n \<ge> 0\<close>,
  \<^verbatim>\<open>c.Limit(n).Collect()\<close> is a slice of length \<open>L + min(n, L)\<close>: \<open>L\<close> zero values (the
  result is made with length \<open>L\<close>), then the first \<open>min(n, L)\<close> elements of the data.
\<close>

theorem Limit_presized:
  assumes "valid h (data c)" and "Compress_Collect h c \<noteq> []" and "0 \<le> n"
    and "Compress_Limit zero spare h c n = (h', c')"
  shows "Compress_Collect h' c' = replicate (length (Compress_Collect h c)) zero @ take (nat n) (Compress_Collect h c) \<and>
         length (Compress_Collect h' c') = length (Compress_Collect h c) + min (nat n) (length (Compress_Collect h c))"
proof -
  have len: "length (Compress_Collect h c) = s_len (data c)"
    using assms(1) by (simp add: Compress_Collect_def length_view)
  from assms(1,2) have pos: "0 < s_len (data c)" by (rule nonempty_len)
  let ?L = "s_len (data c)"
  let ?h1 = "h @ [replicate ?L zero]"
  let ?res = "\<lparr>s_arr = length h, s_off = 0, s_len = ?L, s_cap = ?L\<rparr>"
  have ap: "apart ?h1 (data c) ?res"
    using assms(1) pos by (auto simp: apart_def valid_def nth_append)
  have v1: "view ?h1 (data c) = view h (data c)"
    using assms(1) pos by (auto simp: view_def valid_def nth_append)
  have v2: "view ?h1 ?res = replicate ?L zero"
    by (simp add: view_def)
  obtain h2 res' where l: "Compress_Limit_loop zero spare n ?h1 (data c) 0 ?res 0 = (h2, res')"
    by (cases "Compress_Limit_loop zero spare n ?h1 (data c) 0 ?res 0")
  with assms(4) pos have "h' = h2" "c' = \<lparr>data = res'\<rparr>"
    by (auto simp: Compress_Limit_def make_slice_def)
  with Compress_Limit_loop_view[OF ap l] v1 v2
  have "Compress_Collect h' c' = replicate ?L zero @ take (nat n) (Compress_Collect h c)"
    by (simp add: Compress_Collect_def)
  then show ?thesis by (simp add: len min.commute)
qed


theorem Limit_presized_witness:
  "valid [[1, 2, 3 :: int]] \<lparr>s_arr = 0, s_off = 0, s_len = 3, s_cap = 3\<rparr> \<and> (0::int) \<le> 2 \<and>
   Compress_Limit 0 (\<lambda>n. n) [[1, 2, 3 :: int]]
       \<lparr>data = \<lparr>s_arr = 0, s_off = 0, s_len = 3, s_cap = 3\<rparr>\<rparr> 2 =
     ([[1, 2, 3], [0, 0, 0], [0, 0, 0, 1, 2, 0, 0, 0]],
      \<lparr>data = \<lparr>s_arr = 2, s_off = 0, s_len = 5, s_cap = 8\<rparr>\<rparr>) \<and>
   Compress_Collect [[1, 2, 3], [0, 0, 0], [0, 0, 0, 1, 2, 0, 0, 0 :: int]]
       \<lparr>data = \<lparr>s_arr = 2, s_off = 0, s_len = 5, s_cap = 8\<rparr>\<rparr> = [0, 0, 0, 1, 2]"
proof -
  let ?c = "\<lparr>data = \<lparr>s_arr = 0, s_off = 0, s_len = 3, s_cap = 3\<rparr>\<rparr>"
  have v: "valid [[1, 2, 3 :: int]] (data ?c)" by (simp add: valid_def)
  have ne: "Compress_Collect [[1, 2, 3 :: int]] ?c \<noteq> []"
    by (simp add: Compress_Collect_def view_def)
  have n: "(0::int) \<le> 2" by simp
  have run: "Compress_Limit 0 (\<lambda>n. n) [[1, 2, 3 :: int]] ?c 2 =
     ([[1, 2, 3], [0, 0, 0], [0, 0, 0, 1, 2, 0, 0, 0]],
      \<lparr>data = \<lparr>s_arr = 2, s_off = 0, s_len = 5, s_cap = 8\<rparr>\<rparr>)"
    by code_simp
  from Limit_presized[OF v ne n run] v run show ?thesis
    by (simp add: Compress_Collect_def view_def)
qed


section \<open>Properties of the pipeline\<close>

subsection \<open>Steps, generally\<close>

lemma fire_HandoffE:
  assumes "fire (Handoff i j) c = Some c'"
  obtains ch v where "\<not> panicked c" "i < length (gs c)" "j < length (gs c)" "i \<noteq> j"
    "act (gs c ! i) = Send ch v" "act (gs c ! j) = Recv ch" "ch \<notin> closed c"
    "c' = c\<lparr>gs := (gs c)[i := after (gs c ! i) None, j := after (gs c ! j) (Some v)]\<rparr>"
  using assms by (auto simp: fire_def split: if_splits action.splits)

lemma fire_HandoffCallerE:
  assumes "fire (HandoffCaller i) c = Some c'"
  obtains ch v where "\<not> panicked c" "i < length (gs c)"
    "act (gs c ! i) = Send ch v" "caller_act (caller c) = Recv ch" "ch \<notin> closed c"
    "c' = c\<lparr>gs := (gs c)[i := after (gs c ! i) None],
            caller := caller_after (caller c) (Some v)\<rparr>"
  using assms by (auto simp: fire_def split: if_splits action.splits)

lemma fire_AloneCallerE:
  assumes "fire AloneCaller c = Some c'"
  obtains ch where "\<not> panicked c" "caller_act (caller c) = Recv ch" "ch \<in> closed c"
    "c' = c\<lparr>caller := caller_after (caller c) None\<rparr>"
  using assms by (auto simp: fire_def split: if_splits action.splits)

lemma fire_AloneE:
  assumes "fire (Alone i) c = Some c'"
  obtains
    (recv) ch where "\<not> panicked c" "i < length (gs c)" "act (gs c ! i) = Recv ch" "ch \<in> closed c"
      "c' = c\<lparr>gs := (gs c)[i := after (gs c ! i) None]\<rparr>"
  | (send) ch v where "\<not> panicked c" "i < length (gs c)" "act (gs c ! i) = Send ch v"
      "ch \<in> closed c" "c' = c\<lparr>panicked := True\<rparr>"
  | (close_twice) ch where "\<not> panicked c" "i < length (gs c)" "act (gs c ! i) = Close ch"
      "ch \<in> closed c" "c' = c\<lparr>panicked := True\<rparr>"
  | (close) ch where "\<not> panicked c" "i < length (gs c)" "act (gs c ! i) = Close ch"
      "ch \<notin> closed c"
      "c' = c\<lparr>gs := (gs c)[i := after (gs c ! i) None], closed := insert ch (closed c)\<rparr>"
  | (wg_done) wg where "\<not> panicked c" "i < length (gs c)" "act (gs c ! i) = Done wg"
      "wg < length (wgs c)" "\<not> negative_counter (WaitGroup_Add (wgs c ! wg) (- 1))"
      "c' = c\<lparr>gs := (gs c)[i := after (gs c ! i) None],
              wgs := (wgs c)[wg := WaitGroup_Add (wgs c ! wg) (- 1)]\<rparr>"
  | (wg_negative) wg where "\<not> panicked c" "i < length (gs c)" "act (gs c ! i) = Done wg"
      "\<not> (wg < length (wgs c) \<and> \<not> negative_counter (WaitGroup_Add (wgs c ! wg) (- 1)))"
      "c' = c\<lparr>panicked := True\<rparr>"
  | (wait) wg where "\<not> panicked c" "i < length (gs c)" "act (gs c ! i) = Wait wg"
      "wg < length (wgs c)" "wgs c ! wg = 0"
      "c' = c\<lparr>gs := (gs c)[i := after (gs c ! i) None]\<rparr>"
  using assms by (auto simp: fire_def split: if_splits action.splits)

lemma fire_Handoff_enabled:
  "\<not> panicked c \<Longrightarrow> i < length (gs c) \<Longrightarrow> j < length (gs c) \<Longrightarrow> i \<noteq> j \<Longrightarrow>
   act (gs c ! i) = Send ch v \<Longrightarrow> act (gs c ! j) = Recv ch \<Longrightarrow> ch \<notin> closed c \<Longrightarrow>
   \<exists>c'. fire (Handoff i j) c = Some c'"
  by (simp add: fire_def)

lemma fire_HandoffCaller_enabled:
  "\<not> panicked c \<Longrightarrow> i < length (gs c) \<Longrightarrow> act (gs c ! i) = Send ch v \<Longrightarrow>
   caller_act (caller c) = Recv ch \<Longrightarrow> ch \<notin> closed c \<Longrightarrow>
   \<exists>c'. fire (HandoffCaller i) c = Some c'"
  by (simp add: fire_def)

lemma fire_Alone_recv_enabled:
  "\<not> panicked c \<Longrightarrow> i < length (gs c) \<Longrightarrow> act (gs c ! i) = Recv ch \<Longrightarrow> ch \<in> closed c \<Longrightarrow>
   \<exists>c'. fire (Alone i) c = Some c'"
  by (simp add: fire_def)

lemma fire_Alone_close_enabled:
  "\<not> panicked c \<Longrightarrow> i < length (gs c) \<Longrightarrow> act (gs c ! i) = Close ch \<Longrightarrow>
   \<exists>c'. fire (Alone i) c = Some c'"
  by (simp add: fire_def)

lemma fire_Alone_done_enabled:
  "\<not> panicked c \<Longrightarrow> i < length (gs c) \<Longrightarrow> act (gs c ! i) = Done wg \<Longrightarrow>
   \<exists>c'. fire (Alone i) c = Some c'"
  by (simp add: fire_def)

lemma fire_Alone_wait_enabled:
  "\<not> panicked c \<Longrightarrow> i < length (gs c) \<Longrightarrow> act (gs c ! i) = Wait wg \<Longrightarrow>
   wg < length (wgs c) \<Longrightarrow> wgs c ! wg = 0 \<Longrightarrow> \<exists>c'. fire (Alone i) c = Some c'"
  by (simp add: fire_def)

lemma fire_AloneCaller_enabled:
  "\<not> panicked c \<Longrightarrow> caller_act (caller c) = Recv ch \<Longrightarrow> ch \<in> closed c \<Longrightarrow>
   \<exists>c'. fire AloneCaller c = Some c'"
  by (simp add: fire_def)

lemma run_append: "run (es @ fs) c = (case run es c of None \<Rightarrow> None | Some c' \<Rightarrow> run fs c')"
  by (induction es arbitrary: c) (auto split: option.splits)

lemma run_invariant:
  assumes step: "\<And>c e c'. I c \<Longrightarrow> fire e c = Some c' \<Longrightarrow> I c' \<and> m c' < (m c :: nat)"
  shows "I c \<Longrightarrow> run es c = Some c' \<Longrightarrow> I c' \<and> length es + m c' \<le> m c"
proof (induction es arbitrary: c)
  case Nil
  then show ?case by simp
next
  case (Cons e es)
  from Cons.prems(2) obtain c1 where f: "fire e c = Some c1" and r: "run es c1 = Some c'"
    by (auto split: option.splits)
  from step[OF Cons.prems(1) f] have "I c1" "m c1 < m c" by simp_all
  with Cons.IH[OF _ r] show ?case by fastforce
qed

lemma returns_by_invariant:
  assumes init: "I c0"
    and step: "\<And>c e c'. I c \<Longrightarrow> fire e c = Some c' \<Longrightarrow> I c' \<and> m c' < (m c :: nat)"
    and safe: "\<And>c. I c \<Longrightarrow> \<not> panicked c"
    and result: "\<And>c. I c \<Longrightarrow> returned (caller c) \<Longrightarrow> caller c = Returned r"
    and progress: "\<And>c. I c \<Longrightarrow> \<not> returned (caller c) \<Longrightarrow> \<exists>e c'. fire e c = Some c'"
  shows "returns c0 r"
proof -
  have inv: "I c \<and> length es + m c \<le> m c0" if "run es c0 = Some c" for es c
    using run_invariant[of I m, OF step init that] by simp
  have "\<not> panicked c \<and>
        (if returned (caller c) then caller c = Returned r else \<exists>e c'. fire e c = Some c')"
    if "run es c0 = Some c" for es c
    using inv[OF that] safe result progress by auto
  moreover have "length es \<le> m c0" if "run es c0 = Some c" for es c
    using inv[OF that] by simp
  ultimately show ?thesis unfolding returns_def by blast
qed

subsection \<open>One goroutine's step, seen from the flow\<close>

lemma send_emits:
  "act g = Send ch v \<Longrightarrow> emits g X = v # emits (after g r) X \<and> cost (after g r) = cost g"
  by (cases g rule: act.cases) auto

lemma recv_emits:
  "act g = Recv ch \<Longrightarrow>
     emits g (v # Y) = emits (after g (Some v)) Y \<and> cost (after g (Some v)) \<le> cost g"
  by (cases g rule: act.cases) (auto split: option.splits)

lemma recv_closed_emits:
  "act g = Recv ch \<Longrightarrow>
     emits g [] = [] \<and> emits (after g None) X = [] \<and> cost (after g None) < cost g"
  by (cases g rule: act.cases) auto

lemma close_emits:
  "act g = Close ch \<Longrightarrow>
     emits g X = [] \<and> emits (after g r) Y = [] \<and> cost (after g r) < cost g"
  by (cases g rule: act.cases) auto

lemma sequential_on_item: "sequential b \<Longrightarrow> on_item b v = Some (outs, b') \<Longrightarrow> sequential b'"
  by (cases b) (auto split: if_splits)

lemma sequential_on_exit: "sequential b \<Longrightarrow> on_exit b out = CloseCh out"
  by (cases b) auto

lemma wf_send: "wf_at cl i g \<Longrightarrow> act g = Send ch v \<Longrightarrow> ch = i \<and> wf_at cl i (after g r)"
  by (cases g rule: act.cases) auto

lemma wf_recv: "wf_at cl i g \<Longrightarrow> act g = Recv ch \<Longrightarrow> i = Suc ch \<and> wf_at cl i (after g r)"
  by (cases g rule: act.cases; cases r)
     (auto simp: sequential_on_exit split: option.splits dest: sequential_on_item)

lemma wf_close: "wf_at cl i g \<Longrightarrow> act g = Close ch \<Longrightarrow> ch = i \<and> i \<notin> cl \<and> after g r = Exited"
  by (cases g rule: act.cases) auto

lemma wf_no_waitgroup: "wf_at cl i g \<Longrightarrow> act g \<noteq> Done wg \<and> act g \<noteq> Wait wg"
  by (cases g rule: act.cases) auto

lemma wf_closed_iff: "wf_at cl i g \<Longrightarrow> i \<in> cl \<longleftrightarrow> g = Exited"
  by (cases g) auto

lemma wf_other_closed: "j \<noteq> i \<Longrightarrow> wf_at (insert i cl) j g = wf_at cl j g"
  by (cases g) auto

lemma caller_recv:
  "caller_act m = Recv ch \<Longrightarrow>
     outcome m (v # Y) = outcome (caller_after m (Some v)) Y \<and>
     listens k (caller_after m (Some v)) = listens k m \<and>
     returned (caller_after m (Some v)) = returned m \<and> listens ch m"
  by (cases m) auto

lemma caller_closed:
  "caller_act m = Recv ch \<Longrightarrow>
     outcome m [] = outcome (caller_after m None) Y \<and> returned (caller_after m None) \<and>
     \<not> returned m \<and> listens k (caller_after m None) \<and> listens ch m"
  by (cases m) auto

lemma listens_unique: "listens k m \<Longrightarrow> caller_act m = Recv ch \<Longrightarrow> ch = k"
  by (cases m) auto

subsection \<open>The flow through a chain\<close>

lemma flow_append: "flow inp (xs @ ys) = flow (flow inp xs) ys"
  by (induction xs arbitrary: inp) auto

lemma todo_append: "todo inp (xs @ ys) = todo inp xs + todo (flow inp xs) ys"
  by (induction xs arbitrary: inp) auto

lemma pair_split:
  "Suc i < length g \<Longrightarrow> g = take i g @ g ! i # g ! Suc i # drop (Suc (Suc i)) g"
  by (metis Cons_nth_drop_Suc Suc_lessD id_take_nth_drop)

lemma one_split: "i < length g \<Longrightarrow> g = take i g @ g ! i # drop (Suc i) g"
  by (rule id_take_nth_drop)

lemma flow_after_exited:
  assumes "Suc i < length g" "g ! i = Exited"
  shows "flow inp (take (Suc i) g) = []"
proof -
  have "take (Suc i) g = take i g @ [g ! i]"
    using assms(1) by (simp add: take_Suc_conv_app_nth)
  then show ?thesis using assms(2) by (simp add: flow_append)
qed

lemma flow_last_exited:
  assumes "g \<noteq> []" "g ! (length g - 1) = Exited"
  shows "flow inp g = []"
proof -
  have "g = butlast g @ [g ! (length g - 1)]"
    using assms(1) by (metis append_butlast_last_id last_conv_nth)
  then have "flow inp g = flow (flow inp (butlast g)) [Exited]"
    using assms(2) by (metis flow_append)
  then show ?thesis by simp
qed

lemma flow_pair:
  assumes "Suc i < length g"
  shows "flow inp g =
     flow (emits (g ! Suc i) (emits (g ! i) (flow inp (take i g)))) (drop (Suc (Suc i)) g)"
proof -
  have "flow inp g = flow inp (take i g @ g ! i # g ! Suc i # drop (Suc (Suc i)) g)"
    by (rule arg_cong[OF pair_split[OF assms]])
  then show ?thesis by (simp add: flow_append)
qed

lemma todo_pair:
  assumes "Suc i < length g"
  shows "todo inp g = todo inp (take i g) +
     (length (emits (g ! i) (flow inp (take i g))) + cost (g ! i) +
      (length (emits (g ! Suc i) (emits (g ! i) (flow inp (take i g)))) + cost (g ! Suc i) +
       todo (emits (g ! Suc i) (emits (g ! i) (flow inp (take i g)))) (drop (Suc (Suc i)) g)))"
proof -
  have "todo inp g = todo inp (take i g @ g ! i # g ! Suc i # drop (Suc (Suc i)) g)"
    by (rule arg_cong[OF pair_split[OF assms]])
  then show ?thesis by (simp add: todo_append)
qed

lemma flow_one:
  assumes "i < length g"
  shows "flow inp g = flow (emits (g ! i) (flow inp (take i g))) (drop (Suc i) g)"
proof -
  have "flow inp g = flow inp (take i g @ g ! i # drop (Suc i) g)"
    by (rule arg_cong[OF one_split[OF assms]])
  then show ?thesis by (simp add: flow_append)
qed

lemma todo_one:
  assumes "i < length g"
  shows "todo inp g = todo inp (take i g) +
     (length (emits (g ! i) (flow inp (take i g))) + cost (g ! i) +
      todo (emits (g ! i) (flow inp (take i g))) (drop (Suc i) g))"
proof -
  have "todo inp g = todo inp (take i g @ g ! i # drop (Suc i) g)"
    by (rule arg_cong[OF one_split[OF assms]])
  then show ?thesis by (simp add: todo_append)
qed

lemma handoff_flow:
  assumes l: "Suc i < length g"
    and s: "act (g ! i) = Send ch v" and r: "act (g ! Suc i) = Recv ch'"
  shows "flow inp (g[i := after (g ! i) None, Suc i := after (g ! Suc i) (Some v)]) = flow inp g"
    and "todo inp (g[i := after (g ! i) None, Suc i := after (g ! Suc i) (Some v)]) < todo inp g"
proof -
  let ?a = "after (g ! i) None" and ?b = "after (g ! Suc i) (Some v)"
  let ?X = "flow inp (take i g)"
  let ?g' = "g[i := ?a, Suc i := ?b]"
  have l': "Suc i < length ?g'" using l by simp
  have nth: "?g' ! i = ?a" "?g' ! Suc i = ?b" using l by simp_all
  have tk: "take i ?g' = take i g" "drop (Suc (Suc i)) ?g' = drop (Suc (Suc i)) g" by simp_all
  note e1 = send_emits[OF s, of ?X None]
  note e2 = recv_emits[OF r, of v "emits ?a ?X"]
  show "flow inp ?g' = flow inp g"
    unfolding flow_pair[OF l'] flow_pair[OF l] nth tk using e1 e2 by simp
  show "todo inp ?g' < todo inp g"
    unfolding todo_pair[OF l'] todo_pair[OF l] nth tk using e1 e2 by simp
qed

lemma last_send_flow:
  assumes n: "g \<noteq> []" and s: "act (g ! (length g - 1)) = Send ch v"
  shows "flow inp g = v # flow inp (g[length g - 1 := after (g ! (length g - 1)) None])"
    and "todo inp (g[length g - 1 := after (g ! (length g - 1)) None]) < todo inp g"
proof -
  let ?i = "length g - 1"
  let ?a = "after (g ! ?i) None"
  let ?X = "flow inp (take ?i g)"
  let ?g' = "g[?i := ?a]"
  have l: "?i < length g" using n by simp
  have l': "?i < length ?g'" using n by simp
  have nth: "?g' ! ?i = ?a" using l by simp
  have tk: "take ?i ?g' = take ?i g" "drop (Suc ?i) ?g' = []" "drop (Suc ?i) g = []"
    using l by simp_all
  note e1 = send_emits[OF s, of ?X None]
  show "flow inp g = v # flow inp ?g'"
    unfolding flow_one[OF l'] flow_one[OF l] nth tk using e1 by simp
  show "todo inp ?g' < todo inp g"
    unfolding todo_one[OF l'] todo_one[OF l] nth tk using e1 by simp
qed

lemma quiet_step_flow:
  assumes l: "i < length g"
    and e: "emits (g ! i) (flow inp (take i g)) = []" "emits a (flow inp (take i g)) = []"
    and c: "cost a < cost (g ! i)"
  shows "flow inp (g[i := a]) = flow inp g" and "todo inp (g[i := a]) < todo inp g"
proof -
  let ?g' = "g[i := a]"
  have l': "i < length ?g'" using l by simp
  have nth: "?g' ! i = a" using l by simp
  have tk: "take i ?g' = take i g" "drop (Suc i) ?g' = drop (Suc i) g" by simp_all
  show "flow inp ?g' = flow inp g"
    unfolding flow_one[OF l'] flow_one[OF l] nth tk using e by simp
  show "todo inp ?g' < todo inp g"
    unfolding todo_one[OF l'] todo_one[OF l] nth tk using e c by simp
qed

lemma chain_ok_update:
  "chain_ok g cl \<Longrightarrow> i < length g \<Longrightarrow> wf_at cl i a \<Longrightarrow> chain_ok (g[i := a]) cl"
  by (auto simp: chain_ok_def nth_list_update)

lemma pipe_step:
  assumes inv: "pipe_inv c" and f: "fire e c = Some c'"
  shows "pipe_inv c' \<and>
         outcome (caller c') (flow [] (gs c')) = outcome (caller c) (flow [] (gs c)) \<and>
         effort c' < effort c"
proof -
  let ?g = "gs c" and ?cl = "closed c"
  let ?n = "length ?g"
  from inv have np: "\<not> panicked c" and ne: "?g \<noteq> []"
    and wf: "\<And>k. k < ?n \<Longrightarrow> wf_at ?cl k (?g ! k)"
    and li: "listens (?n - 1) (caller c)" and co: "chain_ok ?g ?cl"
    by (auto simp: pipe_inv_def chain_ok_def)
  show ?thesis
  proof (cases e)
    case (Handoff i j)
    with f obtain ch v where h: "i < ?n" "j < ?n"
      "act (?g ! i) = Send ch v" "act (?g ! j) = Recv ch"
      "c' = c\<lparr>gs := ?g[i := after (?g ! i) None, j := after (?g ! j) (Some v)]\<rparr>"
      by (auto elim: fire_HandoffE)
    from wf_send[OF wf[OF h(1)] h(3), of None] have ci: "ch = i"
      and wa: "wf_at ?cl i (after (?g ! i) None)" by blast+
    from wf_recv[OF wf[OF h(2)] h(4), of "Some v"] ci have j: "j = Suc i"
      and wb: "wf_at ?cl j (after (?g ! j) (Some v))" by blast+
    have l: "Suc i < ?n" using h(2) j by simp
    note fl = handoff_flow[OF l h(3) h(4)[unfolded j], of "[]"]
    have "chain_ok (gs c') (closed c')"
      using chain_ok_update[OF chain_ok_update[OF co h(1) wa] _ wb] h(2,5) by simp
    then have "pipe_inv c'" using np li h(5) by (simp add: pipe_inv_def)
    then show ?thesis using fl h(5) j by (simp add: effort_def)
  next
    case (HandoffCaller i)
    with f obtain ch v where h: "i < ?n"
      "act (?g ! i) = Send ch v" "caller_act (caller c) = Recv ch"
      "c' = c\<lparr>gs := ?g[i := after (?g ! i) None],
              caller := caller_after (caller c) (Some v)\<rparr>"
      by (auto elim: fire_HandoffCallerE)
    from wf_send[OF wf[OF h(1)] h(2), of None] have ci: "ch = i"
      and wa: "wf_at ?cl i (after (?g ! i) None)" by blast+
    from listens_unique[OF li h(3)] ci have i: "i = ?n - 1" by simp
    note fl = last_send_flow[OF ne h(2)[unfolded i], of "[]"]
    note ca = caller_recv[OF h(3), of v _ "?n - 1"]
    have "chain_ok (gs c') (closed c')"
      using chain_ok_update[OF co h(1) wa] h(4) by simp
    then have "pipe_inv c'" using np li h(4) ca by (simp add: pipe_inv_def)
    then show ?thesis using fl h(4) i ca by (simp add: effort_def)
  next
    case AloneCaller
    with f obtain ch where h: "caller_act (caller c) = Recv ch" "ch \<in> ?cl"
      "c' = c\<lparr>caller := caller_after (caller c) None\<rparr>"
      by (auto elim: fire_AloneCallerE)
    from listens_unique[OF li h(1)] have ch: "ch = ?n - 1" .
    have l: "?n - 1 < ?n" using ne by simp
    from wf_closed_iff[OF wf[OF l]] h(2) ch have "?g ! (?n - 1) = Exited" by simp
    from flow_last_exited[OF ne this] have fl: "flow [] ?g = []" .
    note ca = caller_closed[OF h(1), of "[]" "?n - 1"]
    have "pipe_inv c'" using inv h(3) ca by (simp add: pipe_inv_def)
    then show ?thesis using fl h(3) ca by (simp add: effort_def)
  next
    case (Alone i)
    with f have f': "fire (Alone i) c = Some c'" by simp
    from f' show ?thesis
    proof (cases rule: fire_AloneE)
      case (recv ch)
      from wf_recv[OF wf[OF recv(2)] recv(3), of None] have i: "i = Suc ch"
        and wa: "wf_at ?cl i (after (?g ! i) None)" by blast+
      have lc: "ch < ?n" using recv(2) i by simp
      from wf_closed_iff[OF wf[OF lc]] recv(4) have ex: "?g ! ch = Exited" by simp
      have X: "flow [] (take i ?g) = []"
        using flow_after_exited[of ch ?g "[]"] recv(2) ex i by simp
      note re = recv_closed_emits[OF recv(3), of "[]"]
      note fl = quiet_step_flow[of i ?g "[]" "after (?g ! i) None", OF recv(2)]
      have "chain_ok (gs c') (closed c')"
        using chain_ok_update[OF co recv(2) wa] recv(5) by simp
      then have "pipe_inv c'" using np li recv(5) by (simp add: pipe_inv_def)
      then show ?thesis using fl X re recv(5) by (simp add: effort_def)
    next
      case (send ch v)
      from wf_send[OF wf[OF send(2)] send(3)] have "ch = i" by simp
      with wf_closed_iff[OF wf[OF send(2)]] send(3,4) show ?thesis by auto
    next
      case (close_twice ch)
      from wf_close[OF wf[OF close_twice(2)] close_twice(3)] close_twice(4)
      show ?thesis by simp
    next
      case (close ch)
      from wf_close[OF wf[OF close(2)] close(3), of None] have ci: "ch = i"
        and ex: "after (?g ! i) None = Exited" by simp_all
      note ce = close_emits[OF close(3), of "flow [] (take i ?g)" None "flow [] (take i ?g)"]
      note fl = quiet_step_flow[of i ?g "[]" "after (?g ! i) None", OF close(2)]
      have "wf_at (closed c') k (gs c' ! k)" if "k < ?n" for k
      proof (cases "k = i")
        case True
        then show ?thesis using close(2,5) ex ci by simp
      next
        case False
        then show ?thesis using wf[OF that] close(5) ci by (simp add: wf_other_closed)
      qed
      then have "chain_ok (gs c') (closed c')"
        using ne close(5) by (simp add: chain_ok_def)
      then have "pipe_inv c'" using np li close(5) by (simp add: pipe_inv_def)
      then show ?thesis using fl ce close(5) by (simp add: effort_def)
    next
      case (wg_done wg)
      with wf_no_waitgroup[OF wf[OF wg_done(2)], of wg] show ?thesis by simp
    next
      case (wg_negative wg)
      with wf_no_waitgroup[OF wf[OF wg_negative(2)], of wg] show ?thesis by simp
    next
      case (wait wg)
      with wf_no_waitgroup[OF wf[OF wait(2)], of wg] show ?thesis by simp
    qed
  qed
qed

lemma pipe_ready:
  assumes inv: "pipe_inv c" and k: "k < length (gs c)"
  shows "(\<exists>e c'. fire e c = Some c') \<or> (\<exists>v. act (gs c ! k) = Send k v) \<or> gs c ! k = Exited"
  using k
proof (induction k)
  case 0
  from inv 0 have np: "\<not> panicked c" and wf: "wf_at (closed c) 0 (gs c ! 0)"
    by (auto simp: pipe_inv_def chain_ok_def)
  show ?case
  proof (cases "gs c ! 0" rule: act.cases)
    case (1 out)
    then show ?thesis using fire_Alone_close_enabled[OF np 0, of out] by auto
  next
    case (2 out item rest)
    then show ?thesis using wf by simp
  next
    case (5 ch)
    then show ?thesis using fire_Alone_close_enabled[OF np 0, of ch] by auto
  qed (use wf in auto)
next
  case (Suc k)
  from inv Suc.prems have np: "\<not> panicked c"
    and wf: "wf_at (closed c) (Suc k) (gs c ! Suc k)" and wfk: "wf_at (closed c) k (gs c ! k)"
    by (auto simp: pipe_inv_def chain_ok_def)
  from Suc.prems have k: "k < length (gs c)" by simp
  show ?case
  proof (cases "gs c ! Suc k" rule: act.cases)
    case (3 inp out b)
    with wf have r: "act (gs c ! Suc k) = Recv k" by simp
    from Suc.IH[OF k] show ?thesis
    proof (elim disjE exE)
      fix v assume s: "act (gs c ! k) = Send k v"
      then have "gs c ! k \<noteq> Exited" by auto
      with wf_closed_iff[OF wfk] have "k \<notin> closed c" by simp
      from fire_Handoff_enabled[OF np k Suc.prems _ s r this] show ?thesis by auto
    next
      assume "gs c ! k = Exited"
      with wf_closed_iff[OF wfk] have "k \<in> closed c" by simp
      from fire_Alone_recv_enabled[OF np Suc.prems r this] show ?thesis by auto
    qed auto
  next
    case (4 inp out b x pending)
    then show ?thesis using wf by simp
  next
    case (5 ch)
    then show ?thesis using fire_Alone_close_enabled[OF np Suc.prems, of ch] by auto
  qed (use wf in auto)
qed

lemma pipe_progress:
  assumes inv: "pipe_inv c" and nr: "\<not> returned (caller c)"
  shows "\<exists>e c'. fire e c = Some c'"
proof -
  let ?k = "length (gs c) - 1"
  from inv have np: "\<not> panicked c" and ne: "gs c \<noteq> []" and li: "listens ?k (caller c)"
    and wf: "wf_at (closed c) ?k (gs c ! ?k)"
    by (auto simp: pipe_inv_def chain_ok_def)
  have k: "?k < length (gs c)" using ne by simp
  from li nr have r: "caller_act (caller c) = Recv ?k" by (cases "caller c") auto
  from pipe_ready[OF inv k] show ?thesis
  proof (elim disjE exE)
    fix v assume s: "act (gs c ! ?k) = Send ?k v"
    then have "gs c ! ?k \<noteq> Exited" by auto
    with wf_closed_iff[OF wf] have "?k \<notin> closed c" by simp
    from fire_HandoffCaller_enabled[OF np k s r this] show ?thesis by auto
  next
    assume "gs c ! ?k = Exited"
    with wf_closed_iff[OF wf] have "?k \<in> closed c" by simp
    from fire_AloneCaller_enabled[OF np r this] show ?thesis by auto
  qed auto
qed

lemma pipe_returns:
  assumes "pipe_inv c0"
  shows "returns c0 (outcome (caller c0) (flow [] (gs c0)))"
proof (rule returns_by_invariant[where
      I = "\<lambda>c. pipe_inv c \<and> outcome (caller c) (flow [] (gs c)) = outcome (caller c0) (flow [] (gs c0))"
      and m = effort])
  show "pipe_inv c0 \<and> outcome (caller c0) (flow [] (gs c0)) = outcome (caller c0) (flow [] (gs c0))"
    using assms by simp
next
  fix c e c'
  assume "pipe_inv c \<and> outcome (caller c) (flow [] (gs c)) = outcome (caller c0) (flow [] (gs c0))"
    and "fire e c = Some c'"
  then show "(pipe_inv c' \<and> outcome (caller c') (flow [] (gs c')) = outcome (caller c0) (flow [] (gs c0))) \<and>
      effort c' < effort c"
    using pipe_step[of c e c'] by simp
next
  fix c
  assume "pipe_inv c \<and> outcome (caller c) (flow [] (gs c)) = outcome (caller c0) (flow [] (gs c0))"
  then show "\<not> panicked c" by (simp add: pipe_inv_def)
next
  fix c
  assume "pipe_inv c \<and> outcome (caller c) (flow [] (gs c)) = outcome (caller c0) (flow [] (gs c0))"
    and "returned (caller c)"
  then show "caller c = Returned (outcome (caller c0) (flow [] (gs c0)))"
    by (cases "caller c") auto
next
  fix c
  assume "pipe_inv c \<and> outcome (caller c) (flow [] (gs c)) = outcome (caller c0) (flow [] (gs c0))"
    and "\<not> returned (caller c)"
  then show "\<exists>e c'. fire e c = Some c'" using pipe_progress by blast
qed

lemma returns_reaches:
  assumes "returns c0 r"
  shows "\<exists>es c. run es c0 = Some c \<and> caller c = Returned r"
proof (rule ccontr)
  assume no: "\<not> ?thesis"
  from assms obtain N where
    all: "\<And>es c. run es c0 = Some c \<Longrightarrow>
            (if returned (caller c) then caller c = Returned r else \<exists>e c'. fire e c = Some c')"
    and bound: "\<And>es c. run es c0 = Some c \<Longrightarrow> length es \<le> N"
    unfolding returns_def by blast
  have "\<exists>es c. length es = n \<and> run es c0 = Some c" for n
  proof (induction n)
    case 0
    show ?case by (rule exI[of _ "[]"]) simp
  next
    case (Suc n)
    then obtain es c where es: "length es = n" "run es c0 = Some c" by blast
    from no es(2) have "caller c \<noteq> Returned r" by blast
    with all[OF es(2)] obtain e c' where "fire e c = Some c'"
      by (auto split: if_splits)
    with es have "length (es @ [e]) = Suc n \<and> run (es @ [e]) c0 = Some c'"
      by (simp add: run_append)
    then show ?case by blast
  qed
  then obtain es c where "length es = Suc N" "run es c0 = Some c" by blast
  with bound[of es c] show False by simp
qed

lemma returns_unique:
  assumes "returns c0 r" and "returns c0 r'"
  shows "r = r'"
proof -
  from returns_reaches[OF assms(1)] obtain es c where
    c: "run es c0 = Some c" "caller c = Returned r" by blast
  from assms(2) c(1) have "if returned (caller c) then caller c = Returned r' else \<exists>e c'. fire e c = Some c'"
    unfolding returns_def by blast
  with c(2) show ?thesis by simp
qed

lemma run_body_Filter: "run_body (FilterB p) xs = filter p xs"
  by (induction xs) auto

lemma run_body_Map: "run_body (MapB f) xs = map f xs"
  by (induction xs) auto

lemma run_body_FlatMap: "run_body (FlatMapB f) xs = concat (map f xs)"
  by (induction xs) auto

lemma run_body_Limit: "run_body (LimitB n cnt) xs = take (nat (n - cnt)) xs"
proof (induction xs arbitrary: cnt)
  case Nil
  show ?case by simp
next
  case (Cons x xs)
  show ?case
  proof (cases "n \<le> cnt")
    case True
    then show ?thesis by simp
  next
    case False
    then have "nat (n - cnt) = Suc (nat (n - (cnt + 1)))" by linarith
    with False Cons.IH[of "cnt + 1"] show ?thesis by simp
  qed
qed

lemma pipeline_NewStream: "pipeline (NewStream S)"
  by (simp add: pipeline_def NewStream_def chain_ok_def)

lemma pipeline_stage:
  assumes "pipeline s" "sequential b"
  shows "pipeline (stage s b)"
proof -
  let ?n = "length (spawned s)"
  from assms(1) have ne: "spawned s \<noteq> []" and d: "stream_data s = ?n - 1" and m: "made s = ?n"
    and wf: "\<forall>i<?n. wf_at {} i (spawned s ! i)" and nc: "\<not> crashed s"
    by (auto simp: pipeline_def chain_ok_def)
  from ne have pos: "0 < ?n" by simp
  have "wf_at {} i ((spawned s @ [Stage (?n - 1) ?n b []]) ! i)" if "i < Suc ?n" for i
    using that wf pos assms(2) by (auto simp: nth_append less_Suc_eq)
  then show ?thesis
    using nc d m by (simp add: pipeline_def stage_def chain_ok_def Let_def)
qed

lemma pipeline_ops:
  assumes "pipeline s"
  shows "pipeline (Stream_Filter s predicate)" and "pipeline (Stream_Map s f)"
    and "pipeline (Stream_FlatMap s transform)" and "pipeline (Stream_Limit s n)"
  unfolding Stream_Filter_def Stream_Map_def Stream_FlatMap_def Stream_Limit_def
  by (rule pipeline_stage[OF assms], simp)+

lemma delivers_NewStream: "delivers (NewStream S) = S"
  by (simp add: delivers_def NewStream_def)

lemma delivers_stage: "delivers (stage s b) = run_body b (delivers s)"
  by (simp add: delivers_def stage_def Let_def flow_append)

lemma pipeline_Collect:
  assumes "pipeline s"
  shows "returns (Stream_Collect s) (RList (delivers s))"
proof -
  have "pipe_inv (Stream_Collect s)"
    using assms by (simp add: pipeline_def pipe_inv_def Stream_Collect_def)
  from pipe_returns[OF this] show ?thesis
    by (simp add: Stream_Collect_def delivers_def)
qed

lemma pipeline_Reduce:
  assumes "pipeline s"
  shows "returns (Stream_Reduce s inital reduce)
           (RVal (if delivers s = [] then inital else reduce inital (last (delivers s))))"
proof -
  have "pipe_inv (Stream_Reduce s inital reduce)"
    using assms by (simp add: pipeline_def pipe_inv_def Stream_Reduce_def)
  from pipe_returns[OF this] show ?thesis
    unfolding Stream_Reduce_def delivers_def by (simp cong: if_cong)
qed

lemma returns_run:
  "returns c0 r \<Longrightarrow> run es c0 = Some c \<Longrightarrow> returned (caller c) \<Longrightarrow> caller c = Returned r"
  unfolding returns_def by metis

lemmas stream_defs = NewStream_def stage_def Stream_Filter_def Stream_Map_def
  Stream_FlatMap_def Stream_Limit_def Stream_Parallel_def Stream_Collect_def Stream_Reduce_def

text \<open>
  Claim C1. \<^verbatim>\<open>Reduce(initial, combine)\<close> over a sequential chain that delivers \<open>e1..ek\<close> (the
  list \<^verbatim>\<open>Collect\<close> would return) returns \<open>combine initial ek\<close> when \<open>k \<ge> 1\<close>, since every step
  combines with the fixed initial value, and returns \<open>initial\<close> when \<open>k = 0\<close>. Concretely,
  \<^verbatim>\<open>Reduce(0, +)\<close> over the source \<open>[1..10]\<close> returns 10.
\<close>

theorem Reduce_keeps_last:
  assumes "pipeline s" and "returns (Stream_Collect s) (RList es)"
  shows "returns (Stream_Reduce s initial combine)
           (RVal (if es = [] then initial else combine initial (last es))) \<and>
         returns (Stream_Reduce (NewStream [1, 2, 3, 4, 5, 6, 7, 8, 9, 10 :: int]) 0 (+)) (RVal 10)"
proof -
  from returns_unique[OF assms(2) pipeline_Collect[OF assms(1)]] have "es = delivers s" by simp
  with pipeline_Reduce[OF assms(1), of initial combine]
  have "returns (Stream_Reduce s initial combine)
           (RVal (if es = [] then initial else combine initial (last es)))" by blast
  moreover from pipeline_Reduce[OF pipeline_NewStream, of "[1, 2, 3, 4, 5, 6, 7, 8, 9, 10 :: int]" 0 "(+)"]
  have "returns (Stream_Reduce (NewStream [1, 2, 3, 4, 5, 6, 7, 8, 9, 10 :: int]) 0 (+)) (RVal 10)"
    by (simp add: delivers_NewStream)
  ultimately show ?thesis by simp
qed

theorem Reduce_keeps_last_witness:
  "pipeline (NewStream [1, 2, 3, 4, 5, 6, 7, 8, 9, 10 :: int]) \<and>
   map_option caller
     (run [HandoffCaller 0, HandoffCaller 0, HandoffCaller 0, HandoffCaller 0, HandoffCaller 0,
           HandoffCaller 0, HandoffCaller 0, HandoffCaller 0, HandoffCaller 0, HandoffCaller 0,
           Alone 0, AloneCaller]
        (Stream_Reduce (NewStream [1, 2, 3, 4, 5, 6, 7, 8, 9, 10 :: int]) 0 (+))) =
     Some (Returned (RVal 10))"
proof -
  let ?S = "[1, 2, 3, 4, 5, 6, 7, 8, 9, 10 :: int]"
  let ?es = "[HandoffCaller 0, HandoffCaller 0, HandoffCaller 0, HandoffCaller 0, HandoffCaller 0,
           HandoffCaller 0, HandoffCaller 0, HandoffCaller 0, HandoffCaller 0, HandoffCaller 0,
           Alone 0, AloneCaller]"
  have p: "pipeline (NewStream ?S)" by (rule pipeline_NewStream)
  have c: "returns (Stream_Collect (NewStream ?S)) (RList ?S)"
    using pipeline_Collect[OF p] by (simp add: delivers_NewStream)
  obtain c' where r: "run ?es (Stream_Reduce (NewStream ?S) 0 (+)) = Some c'"
      and d: "returned (caller c')"
    by (simp add: stream_defs fire_def)
  from Reduce_keeps_last[OF p c, of 0 "(+)"]
  have "returns (Stream_Reduce (NewStream ?S) 0 (+)) (RVal (if ?S = [] then 0 else 0 + last ?S))"
    by blast
  from returns_run[OF this r d] r p show ?thesis by simp
qed

text \<open>
  Claim C2. For every finite sequence \<open>S\<close> and predicate \<open>P\<close>, \<^verbatim>\<open>Collect\<close> of \<^verbatim>\<open>Filter(P)\<close> over
  \<^verbatim>\<open>NewStream(S)\<close> returns exactly the elements of \<open>S\<close> that satisfy \<open>P\<close>, in the order of \<open>S\<close>.
\<close>

theorem Filter_Collect:
  "returns (Stream_Collect (Stream_Filter (NewStream S) P)) (RList (filter P S))"
  using pipeline_Collect[OF pipeline_stage[OF pipeline_NewStream], of "FilterB P" S]
  by (simp add: Stream_Filter_def delivers_stage delivers_NewStream run_body_Filter)

theorem Filter_Collect_witness:
  "map_option caller
     (run [Handoff 0 1, Handoff 0 1, HandoffCaller 1, Handoff 0 1, Handoff 0 1, HandoffCaller 1,
           Alone 0, Alone 1, Alone 1, AloneCaller]
        (Stream_Collect (Stream_Filter (NewStream [1, 2, 3, 4 :: int]) (\<lambda>x. x mod 2 = 0)))) =
     Some (Returned (RList [2, 4]))"
proof -
  let ?c0 = "Stream_Collect (Stream_Filter (NewStream [1, 2, 3, 4 :: int]) (\<lambda>x. x mod 2 = 0))"
  obtain c' where r: "run [Handoff 0 1, Handoff 0 1, HandoffCaller 1, Handoff 0 1, Handoff 0 1,
           HandoffCaller 1, Alone 0, Alone 1, Alone 1, AloneCaller] ?c0 = Some c'"
      and d: "returned (caller c')"
    by (simp add: stream_defs fire_def)
  from returns_run[OF Filter_Collect r d] r show ?thesis by simp
qed

text \<open>
  Claim C3. For every finite sequence \<open>S\<close> and integer \<open>n\<close>, \<^verbatim>\<open>Collect\<close> of \<^verbatim>\<open>Limit(n)\<close> over
  \<^verbatim>\<open>NewStream(S)\<close> returns the first \<open>min(n, len(S))\<close> elements of \<open>S\<close> in order when \<open>n \<ge> 0\<close>
  (nothing for \<open>n = 0\<close>), and the empty sequence when \<open>n\<close> is negative.
\<close>

theorem Limit_Collect:
  "returns (Stream_Collect (Stream_Limit (NewStream S) n))
     (RList (if 0 \<le> n then take (min (nat n) (length S)) S else []))"
proof -
  have "take (nat n) S = (if 0 \<le> n then take (min (nat n) (length S)) S else [])"
    by (simp add: min_def)
  moreover have "returns (Stream_Collect (Stream_Limit (NewStream S) n)) (RList (take (nat n) S))"
    using pipeline_Collect[OF pipeline_stage[OF pipeline_NewStream], of "LimitB n 0" S]
    by (simp add: Stream_Limit_def delivers_stage delivers_NewStream run_body_Limit)
  ultimately show ?thesis by metis
qed

theorem Limit_Collect_witness:
  "map_option caller
     (run [Handoff 0 1, HandoffCaller 1, Handoff 0 1, Alone 1, AloneCaller]
        (Stream_Collect (Stream_Limit (NewStream [1, 2, 3 :: int]) 1))) =
     Some (Returned (RList [1])) \<and>
   map_option caller
     (run [Handoff 0 1, Alone 1, AloneCaller]
        (Stream_Collect (Stream_Limit (NewStream [1, 2, 3 :: int]) 0))) =
     Some (Returned (RList []))"
proof -
  obtain c1 where r1: "run [Handoff 0 1, HandoffCaller 1, Handoff 0 1, Alone 1, AloneCaller]
        (Stream_Collect (Stream_Limit (NewStream [1, 2, 3 :: int]) 1)) = Some c1"
      and d1: "returned (caller c1)"
    by (simp add: stream_defs fire_def)
  obtain c2 where r2: "run [Handoff 0 1, Alone 1, AloneCaller]
        (Stream_Collect (Stream_Limit (NewStream [1, 2, 3 :: int]) 0)) = Some c2"
      and d2: "returned (caller c2)"
    by (simp add: stream_defs fire_def)
  from returns_run[OF Limit_Collect r1 d1] returns_run[OF Limit_Collect r2 d2] r1 r2
  show ?thesis by simp
qed

text \<open>
  Claim C4. For every finite sequence \<open>S = [x1..xk]\<close> and expansion \<open>f\<close>, \<^verbatim>\<open>Collect\<close> of
  \<^verbatim>\<open>FlatMap(f)\<close> over \<^verbatim>\<open>NewStream(S)\<close> returns \<open>f(x1) ++ ... ++ f(xk)\<close>: order is kept inside
  each expansion and across the inputs.
\<close>

theorem FlatMap_Collect:
  "returns (Stream_Collect (Stream_FlatMap (NewStream S) f)) (RList (concat (map f S)))"
  using pipeline_Collect[OF pipeline_stage[OF pipeline_NewStream], of "FlatMapB f" S]
  by (simp add: Stream_FlatMap_def delivers_stage delivers_NewStream run_body_FlatMap)

theorem FlatMap_Collect_witness:
  "map_option caller
     (run [Handoff 0 1, HandoffCaller 1, HandoffCaller 1, Handoff 0 1, HandoffCaller 1,
           HandoffCaller 1, Alone 0, Alone 1, Alone 1, AloneCaller]
        (Stream_Collect (Stream_FlatMap (NewStream [1, 2 :: int]) (\<lambda>x. [x, 10 * x])))) =
     Some (Returned (RList [1, 10, 2, 20]))"
proof -
  obtain c' where r: "run [Handoff 0 1, HandoffCaller 1, HandoffCaller 1, Handoff 0 1,
           HandoffCaller 1, HandoffCaller 1, Alone 0, Alone 1, Alone 1, AloneCaller]
        (Stream_Collect (Stream_FlatMap (NewStream [1, 2 :: int]) (\<lambda>x. [x, 10 * x]))) = Some c'"
      and d: "returned (caller c')"
    by (simp add: stream_defs fire_def)
  from returns_run[OF FlatMap_Collect r d] r show ?thesis by simp
qed

text \<open>
  Claim C5. For every finite sequence \<open>S\<close> and transform \<open>F\<close>, \<^verbatim>\<open>Collect\<close> of \<^verbatim>\<open>Map(F)\<close> over
  \<^verbatim>\<open>NewStream(S)\<close> has the length of \<open>S\<close>, and its element at every index \<open>i\<close> is \<open>F(S[i])\<close>.
\<close>

theorem Map_Collect:
  "\<exists>ys. returns (Stream_Collect (Stream_Map (NewStream S) F)) (RList ys) \<and>
        length ys = length S \<and> (\<forall>i<length S. ys ! i = F (S ! i))"
proof -
  have "returns (Stream_Collect (Stream_Map (NewStream S) F)) (RList (map F S))"
    using pipeline_Collect[OF pipeline_stage[OF pipeline_NewStream], of "MapB F" S]
    by (simp add: Stream_Map_def delivers_stage delivers_NewStream run_body_Map)
  then show ?thesis by (intro exI[of _ "map F S"]) simp
qed

theorem Map_Collect_witness:
  "map_option caller
     (run [Handoff 0 1, HandoffCaller 1, Handoff 0 1, HandoffCaller 1, Handoff 0 1,
           HandoffCaller 1, Alone 0, Alone 1, Alone 1, AloneCaller]
        (Stream_Collect (Stream_Map (NewStream [1, 2, 3 :: int]) (\<lambda>x. 2 * x)))) =
     Some (Returned (RList [2, 4, 6]))"
proof -
  obtain c' where r: "run [Handoff 0 1, HandoffCaller 1, Handoff 0 1, HandoffCaller 1, Handoff 0 1,
           HandoffCaller 1, Alone 0, Alone 1, Alone 1, AloneCaller]
        (Stream_Collect (Stream_Map (NewStream [1, 2, 3 :: int]) (\<lambda>x. 2 * x))) = Some c'"
      and d: "returned (caller c')" and e: "caller c' = Returned (RList [2, 4, 6])"
    by (simp add: stream_defs fire_def)
  from Map_Collect[of "[1, 2, 3 :: int]" "\<lambda>x. 2 * x"] obtain ys where
    ys: "returns (Stream_Collect (Stream_Map (NewStream [1, 2, 3 :: int]) (\<lambda>x. 2 * x))) (RList ys)"
      "length ys = 3" "\<forall>i<3. ys ! i = 2 * ([1, 2, 3] ! i)"
    by auto
  from returns_run[OF ys(1) r d] r e show ?thesis by simp
qed

text \<open>
  Claim C7. Filtering is idempotent on content: \<^verbatim>\<open>Collect\<close> of \<^verbatim>\<open>Filter(P)\<close> applied twice over
  \<^verbatim>\<open>NewStream(S)\<close> returns what \<^verbatim>\<open>Collect\<close> of \<^verbatim>\<open>Filter(P)\<close> applied once returns; and
  \<^verbatim>\<open>Filter(P)\<close> on a sequential chain all of whose delivered elements satisfy \<open>P\<close> leaves
  the collected content as it is.
\<close>

theorem Filter_idempotent:
  "(\<exists>ys. returns (Stream_Collect (Stream_Filter (Stream_Filter (NewStream S) P) P)) (RList ys) \<and>
         returns (Stream_Collect (Stream_Filter (NewStream S) P)) (RList ys)) \<and>
   (\<forall>s es. pipeline s \<and> returns (Stream_Collect s) (RList es) \<and> (\<forall>x\<in>set es. P x) \<longrightarrow>
         returns (Stream_Collect (Stream_Filter s P)) (RList es))"
proof (intro conjI allI impI)
  have p1: "pipeline (Stream_Filter (NewStream S) P)"
    unfolding Stream_Filter_def by (rule pipeline_stage[OF pipeline_NewStream]) simp
  have p2: "pipeline (Stream_Filter (Stream_Filter (NewStream S) P) P)"
    unfolding Stream_Filter_def
    by (rule pipeline_stage[OF p1[unfolded Stream_Filter_def]]) simp
  from pipeline_Collect[OF p1] pipeline_Collect[OF p2]
  have "returns (Stream_Collect (Stream_Filter (Stream_Filter (NewStream S) P) P)) (RList (filter P S)) \<and>
        returns (Stream_Collect (Stream_Filter (NewStream S) P)) (RList (filter P S))"
    by (simp add: Stream_Filter_def delivers_stage delivers_NewStream run_body_Filter)
  then show "\<exists>ys. returns (Stream_Collect (Stream_Filter (Stream_Filter (NewStream S) P) P)) (RList ys) \<and>
         returns (Stream_Collect (Stream_Filter (NewStream S) P)) (RList ys)" by blast
next
  fix s :: "'a Stream" and es
  assume a: "pipeline s \<and> returns (Stream_Collect s) (RList es) \<and> (\<forall>x\<in>set es. P x)"
  then have p: "pipeline s" and r: "returns (Stream_Collect s) (RList es)" and all: "\<forall>x\<in>set es. P x"
    by simp_all
  from returns_unique[OF r pipeline_Collect[OF p]] have es: "es = delivers s" by simp
  have "pipeline (Stream_Filter s P)"
    unfolding Stream_Filter_def by (rule pipeline_stage[OF p]) simp
  from pipeline_Collect[OF this] have "returns (Stream_Collect (Stream_Filter s P)) (RList (filter P es))"
    by (simp add: Stream_Filter_def delivers_stage run_body_Filter es)
  moreover from all have "filter P es = es" by simp
  ultimately show "returns (Stream_Collect (Stream_Filter s P)) (RList es)" by simp
qed

theorem Filter_idempotent_witness:
  "map_option caller
     (run [Handoff 0 1, Handoff 0 1, Handoff 1 2, HandoffCaller 2, Alone 0, Alone 1, Alone 1,
           Alone 2, Alone 2, AloneCaller]
        (Stream_Collect (Stream_Filter (Stream_Filter (NewStream [1, 2 :: int]) (\<lambda>x. x mod 2 = 0))
           (\<lambda>x. x mod 2 = 0)))) =
     Some (Returned (RList [2])) \<and>
   pipeline (NewStream [2, 4 :: int]) \<and> list_all (\<lambda>x. x mod 2 = 0) [2, 4 :: int] \<and>
   returns (Stream_Collect (Stream_Filter (NewStream [2, 4 :: int]) (\<lambda>x. x mod 2 = 0)))
     (RList [2, 4])"
proof -
  let ?P = "\<lambda>x :: int. x mod 2 = 0"
  obtain c' where r: "run [Handoff 0 1, Handoff 0 1, Handoff 1 2, HandoffCaller 2, Alone 0, Alone 1,
           Alone 1, Alone 2, Alone 2, AloneCaller]
        (Stream_Collect (Stream_Filter (Stream_Filter (NewStream [1, 2 :: int]) ?P) ?P)) = Some c'"
      and d: "returned (caller c')" and e: "caller c' = Returned (RList [2])"
    by (simp add: stream_defs fire_def)
  note inst = Filter_idempotent[of "[1, 2 :: int]" ?P]
  from inst obtain ys where
    ys: "returns (Stream_Collect (Stream_Filter (Stream_Filter (NewStream [1, 2 :: int]) ?P) ?P)) (RList ys)"
    by blast
  have p: "pipeline (NewStream [2, 4 :: int])" by (rule pipeline_NewStream)
  have c: "returns (Stream_Collect (NewStream [2, 4 :: int])) (RList [2, 4])"
    using pipeline_Collect[OF p] by (simp add: delivers_NewStream)
  have a: "\<forall>x\<in>set [2, 4 :: int]. ?P x" by simp
  from inst p c a
  have "returns (Stream_Collect (Stream_Filter (NewStream [2, 4 :: int]) ?P)) (RList [2, 4])"
    by blast
  with returns_run[OF ys r d] r e p a show ?thesis by simp
qed


section \<open>Properties of the fan-out\<close>

lemma sum_list_map_update:
  fixes f :: "'b \<Rightarrow> 'c :: comm_monoid_add"
  shows "i < length g \<Longrightarrow> sum_list (map f (g[i := a])) + f (g ! i) = sum_list (map f g) + f a"
proof (induction g arbitrary: i)
  case Nil
  then show ?case by simp
next
  case (Cons x g)
  show ?case
  proof (cases i)
    case 0
    then show ?thesis by (simp add: ac_simps)
  next
    case (Suc j)
    with Cons.prems have "j < length g" by simp
    from Cons.IH[OF this] Suc show ?thesis by (simp add: ac_simps)
  qed
qed

lemma returns_such_by_invariant:
  assumes init: "I c0"
    and step: "\<And>c e c'. I c \<Longrightarrow> fire e c = Some c' \<Longrightarrow> I c' \<and> m c' < (m c :: nat)"
    and safe: "\<And>c. I c \<Longrightarrow> \<not> panicked c"
    and result: "\<And>c. I c \<Longrightarrow> returned (caller c) \<Longrightarrow> \<exists>r. caller c = Returned r \<and> Q r"
    and progress: "\<And>c. I c \<Longrightarrow> \<not> returned (caller c) \<Longrightarrow> \<exists>e c'. fire e c = Some c'"
  shows "returns_such c0 Q"
proof -
  have inv: "I c \<and> length es + m c \<le> m c0" if "run es c0 = Some c" for es c
    using run_invariant[of I m, OF step init that] by simp
  have "\<not> panicked c \<and>
        (if returned (caller c) then \<exists>r. caller c = Returned r \<and> Q r
         else \<exists>e c'. fire e c = Some c')"
    if "run es c0 = Some c" for es c
    using inv[OF that] safe result progress by auto
  moreover have "length es \<le> m c0" if "run es c0 = Some c" for es c
    using inv[OF that] by simp
  ultimately show ?thesis unfolding returns_such_def by blast
qed

lemma returns_as_returns_such: "returns c0 r \<longleftrightarrow> returns_such c0 (\<lambda>x. x = r)"
  unfolding returns_def returns_such_def by (rule arg_cong2[where f = "(\<and>)"]) auto

lemma sint_counter:
  assumes "0 \<le> w" "w < 2 ^ 31"
  shows "sint (word_of_int w :: counter) = w"
proof -
  have "signed_take_bit 31 w = w"
    using assms by (simp add: signed_take_bit_int_eq_self)
  then show ?thesis by (simp add: sint_sbintrunc')
qed

lemma counter_zero:
  assumes "0 \<le> w" "w < 2 ^ 31"
  shows "(word_of_int w :: counter) = 0 \<longleftrightarrow> w = 0"
proof
  assume "(word_of_int w :: counter) = 0"
  then have "sint (word_of_int w :: counter) = 0" by simp
  with sint_counter[OF assms] show "w = 0" by simp
qed simp

lemma counter_done:
  assumes "0 < w" "w < 2 ^ 31"
  shows "WaitGroup_Add (word_of_int w) (- 1) = word_of_int (w - 1)"
    and "\<not> negative_counter (WaitGroup_Add (word_of_int w) (- 1))"
proof -
  show a: "WaitGroup_Add (word_of_int w) (- 1) = word_of_int (w - 1)"
    by (simp add: WaitGroup_Add_def)
  have "sint (word_of_int (w - 1) :: counter) = w - 1"
    using assms by (intro sint_counter) simp_all
  with assms(1) show "\<not> negative_counter (WaitGroup_Add (word_of_int w) (- 1))"
    unfolding a negative_counter_def by simp
qed

lemma counter_add:
  assumes "0 \<le> K" "K < 2 ^ 31"
  shows "WaitGroup_Add 0 K = word_of_int K" and "\<not> negative_counter (WaitGroup_Add 0 K)"
  using sint_counter[OF assms] assms(1) by (simp_all add: WaitGroup_Add_def negative_counter_def)

lemma owes_nonneg: "0 \<le> owes g"
  by (cases g rule: owes.cases) auto

lemma sum_owes_nonneg: "0 \<le> sum_list (map owes g)"
  by (induction g) (auto simp: owes_nonneg)

lemma sum_owes_pos: "i < length g \<Longrightarrow> owes (g ! i) = 1 \<Longrightarrow> 1 \<le> sum_list (map owes g)"
proof (induction g arbitrary: i)
  case Nil
  then show ?case by simp
next
  case (Cons x g)
  show ?case
  proof (cases i)
    case 0
    with Cons.prems sum_owes_nonneg[of g] show ?thesis by simp
  next
    case (Suc j)
    with Cons.prems Cons.IH[of j] owes_nonneg[of x] show ?thesis by simp
  qed
qed

lemma role_send:
  assumes "role_ok K cl w i g" "i < K + 2" "act g = Send ch v"
  shows "(i = 0 \<and> ch = 0 \<and> 0 \<notin> cl \<and> (\<exists>xs. g = Source 0 (v # xs))) \<or>
         (1 \<le> i \<and> i \<le> K \<and> ch = 1 \<and> g = Stage 0 1 (WorkerB 0) [v])"
  using assms by (cases g rule: act.cases) (auto simp: role_ok_def split: if_splits)

lemma role_recv:
  assumes "role_ok K cl w i g" "i < K + 2" "act g = Recv ch"
  shows "1 \<le> i \<and> i \<le> K \<and> ch = 0 \<and> g = Stage 0 1 (WorkerB 0) []"
  using assms by (cases g rule: act.cases) (auto simp: role_ok_def split: if_splits)

lemma role_close:
  assumes "role_ok K cl w i g" "i < K + 2" "act g = Close ch"
  shows "(i = 0 \<and> ch = 0 \<and> g = Source 0 [] \<and> 0 \<notin> cl) \<or>
         (i = K + 1 \<and> ch = 1 \<and> g = Last (CloseCh 1) \<and> 1 \<notin> cl \<and> w = 0)"
  using assms by (cases g rule: act.cases) (auto simp: role_ok_def split: if_splits)

lemma role_done:
  assumes "role_ok K cl w i g" "i < K + 2" "act g = Done wg"
  shows "1 \<le> i \<and> i \<le> K \<and> wg = 0 \<and> g = Last (WgDone 0) \<and> 0 \<in> cl"
  using assms by (cases g rule: act.cases) (auto simp: role_ok_def split: if_splits)

lemma role_wait:
  assumes "role_ok K cl w i g" "i < K + 2" "act g = Wait wg"
  shows "i = K + 1 \<and> wg = 0 \<and> g = Coordinator 0 1 \<and> 1 \<notin> cl"
  using assms by (cases g rule: act.cases) (auto simp: role_ok_def split: if_splits)

lemma role_close0: "k \<noteq> 0 \<Longrightarrow> role_ok K cl w k g \<Longrightarrow> role_ok K (insert 0 cl) w k g"
  by (cases g rule: owes.cases) (auto simp: role_ok_def split: if_splits)

lemma role_close1: "k \<le> K \<Longrightarrow> role_ok K cl w k g \<Longrightarrow> role_ok K (insert 1 cl) w k g"
  by (cases g rule: owes.cases) (auto simp: role_ok_def split: if_splits)

lemma role_waiting:
  "role_ok K cl w k g \<Longrightarrow> 0 < w \<Longrightarrow> role_ok K cl w' k g"
  by (cases g rule: owes.cases) (auto simp: role_ok_def split: if_splits)

lemma roles_update:
  assumes "\<And>k. k < n \<Longrightarrow> role_ok K cl w k (g ! k)" "length g = n" "i < n"
    and "role_ok K cl' w' i a"
    and "\<And>k. k < n \<Longrightarrow> k \<noteq> i \<Longrightarrow> role_ok K cl w k (g ! k) \<Longrightarrow> role_ok K cl' w' k (g ! k)"
  shows "k < n \<Longrightarrow> role_ok K cl' w' k (g[i := a] ! k)"
  using assms by (cases "k = i") auto

lemma par_invI:
  assumes "\<not> panicked c" "length (gs c) = K + 2" "0 < K"
    and "\<And>k. k < K + 2 \<Longrightarrow> role_ok K (closed c) (sum_list (map owes (gs c))) k (gs c ! k)"
    and "wgs c = [word_of_int (sum_list (map owes (gs c)))]"
    and "collector_ok (closed c) (caller c)"
    and "mset (collected (caller c)) + sum_list (map (\<lambda>g. mset (held g)) (gs c)) = mset S"
    and "K = 1 \<Longrightarrow> collected (caller c) @ held (gs c ! 1) @ held (gs c ! 0) = S"
    and "sum_list (map owes (gs c)) < 2 ^ 31"
  shows "par_inv K S c"
  using assms unfolding par_inv_def by blast

lemma par_invD:
  assumes "par_inv K S c"
  shows "\<not> panicked c" "length (gs c) = K + 2" "0 < K"
    and "\<And>k. k < K + 2 \<Longrightarrow> role_ok K (closed c) (sum_list (map owes (gs c))) k (gs c ! k)"
    and "wgs c = [word_of_int (sum_list (map owes (gs c)))]"
    and "collector_ok (closed c) (caller c)"
    and "mset (collected (caller c)) + sum_list (map (\<lambda>g. mset (held g)) (gs c)) = mset S"
    and "K = 1 \<Longrightarrow> collected (caller c) @ held (gs c ! 1) @ held (gs c ! 0) = S"
    and "sum_list (map owes (gs c)) < 2 ^ 31"
  using assms unfolding par_inv_def by blast+

lemma par_step_handoff:
  assumes inv: "par_inv K S c" and f: "fire (Handoff i j) c = Some c'"
  shows "par_inv K S c' \<and> par_effort c' < par_effort c"
proof -
  let ?g = "gs c" and ?cl = "closed c"
  let ?w = "sum_list (map owes ?g)"
  note d = par_invD[OF inv]
  from f obtain ch v where h: "i < length ?g" "j < length ?g" "i \<noteq> j"
    "act (?g ! i) = Send ch v" "act (?g ! j) = Recv ch"
    "c' = c\<lparr>gs := ?g[i := after (?g ! i) None, j := after (?g ! j) (Some v)]\<rparr>"
    by (auto elim: fire_HandoffE)
  from h(1,2) d(2) have li: "i < K + 2" and lj: "j < K + 2" by simp_all
  from role_recv[OF d(4)[OF lj] lj h(5)]
  have j: "1 \<le> j" "j \<le> K" and ch: "ch = 0" and gj: "?g ! j = Stage 0 1 (WorkerB 0) []"
    by simp_all
  from role_send[OF d(4)[OF li] li h(4)] ch obtain xs
    where i: "i = 0" and gi: "?g ! 0 = Source 0 (v # xs)" and op: "0 \<notin> ?cl" by auto
  let ?a = "Source 0 xs" and ?b = "Stage 0 1 (WorkerB 0) [v]"
  let ?g1 = "?g[0 := ?a]"
  let ?g' = "?g1[j := ?b]"
  have g': "gs c' = ?g'" using h(6) i gi gj by simp
  have l0: "0 < length ?g" and l1: "j < length ?g1" using h(2) by auto
  have g1j: "?g1 ! j = Stage 0 1 (WorkerB 0) []" using j gj by simp
  note u1 = sum_list_map_update[OF l0, of _ ?a, unfolded gi]
  note u2 = sum_list_map_update[OF l1, of _ ?b, unfolded g1j]
  have ow: "sum_list (map owes ?g') = ?w"
    using u1[of owes] u2[of owes] by simp
  have he: "sum_list (map (\<lambda>g. mset (held g)) ?g') = sum_list (map (\<lambda>g. mset (held g)) ?g)"
    using u1[of "\<lambda>g. mset (held g)"] u2[of "\<lambda>g. mset (held g)"]
    by (simp add: ac_simps)
  have we: "sum_list (map weight ?g') < sum_list (map weight ?g)"
    using u1[of weight] u2[of weight] by simp
  have ra: "role_ok K ?cl ?w 0 ?a" using op by (simp add: role_ok_def)
  have rb: "role_ok K ?cl ?w j ?b" using j by (simp add: role_ok_def)
  have r1: "role_ok K ?cl ?w k (?g1 ! k)" if "k < K + 2" for k
    by (rule roles_update[where g = ?g and w = ?w and cl = ?cl, OF d(4) d(2) _ ra _ that])
       simp_all
  have roles: "role_ok K ?cl ?w k (?g' ! k)" if "k < K + 2" for k
    by (rule roles_update[where g = ?g1 and w = ?w and cl = ?cl, OF r1 _ lj rb _ that])
       (simp_all add: d(2))
  have "par_inv K S c'"
  proof (rule par_invI)
    show "\<not> panicked c'" using d(1) h(6) by simp
    show "length (gs c') = K + 2" using d(2) g' by simp
    show "0 < K" by (rule d(3))
    show "role_ok K (closed c') (sum_list (map owes (gs c'))) k (gs c' ! k)" if "k < K + 2" for k
      using roles[OF that] h(6) g' ow by simp
    show "wgs c' = [word_of_int (sum_list (map owes (gs c')))]" using d(5) h(6) g' ow by simp
    show "sum_list (map owes (gs c')) < 2 ^ 31" using d(9) g' ow by simp
    show "collector_ok (closed c') (caller c')" using d(6) h(6) by simp
    show "mset (collected (caller c')) + sum_list (map (\<lambda>g. mset (held g)) (gs c')) = mset S"
      using d(7) h(6) g' he by simp
    show "collected (caller c') @ held (gs c' ! 1) @ held (gs c' ! 0) = S" if "K = 1"
    proof -
      from that j have "j = 1" by simp
      with d(8)[OF that] gi gj h(6) g' d(2) that show ?thesis by simp
    qed
  qed
  moreover have "par_effort c' < par_effort c"
    using we g' h(6) by (simp add: par_effort_def)
  ultimately show ?thesis by simp
qed

lemma collector_chan:
  assumes "collector_ok cl m" "caller_act m = Recv ch"
  shows "ch = 1"
  using assms by (cases m rule: collected.cases) simp_all

lemma collector_recv:
  assumes "collector_ok cl m" "caller_act m = Recv ch"
  shows "collector_ok cl (caller_after m (Some v))"
    "collected (caller_after m (Some v)) = collected m @ [v]"
    "returned (caller_after m (Some v)) = returned m"
  using assms by (cases m rule: collected.cases; simp)+

lemma collector_closed:
  assumes "collector_ok cl m" "caller_act m = Recv ch" "ch \<in> cl"
  shows "collector_ok cl (caller_after m None)"
    "collected (caller_after m None) = collected m"
    "returned (caller_after m None)" "\<not> returned m"
  using assms by (cases m rule: collected.cases; simp)+

lemma par_step_handoff_caller:
  assumes inv: "par_inv K S c" and f: "fire (HandoffCaller i) c = Some c'"
  shows "par_inv K S c' \<and> par_effort c' < par_effort c"
proof -
  let ?g = "gs c" and ?cl = "closed c"
  let ?w = "sum_list (map owes ?g)"
  note d = par_invD[OF inv]
  from f obtain ch v where h: "i < length ?g"
    "act (?g ! i) = Send ch v" "caller_act (caller c) = Recv ch"
    "c' = c\<lparr>gs := ?g[i := after (?g ! i) None], caller := caller_after (caller c) (Some v)\<rparr>"
    by (auto elim: fire_HandoffCallerE)
  from h(1) d(2) have li: "i < K + 2" by simp
  note cr = collector_recv[OF d(6) h(3), where v = v]
  from role_send[OF d(4)[OF li] li h(2)] collector_chan[OF d(6) h(3)]
  have i: "1 \<le> i" "i \<le> K" and gi: "?g ! i = Stage 0 1 (WorkerB 0) [v]" by auto
  let ?a = "Stage 0 1 (WorkerB 0) []"
  let ?g' = "?g[i := ?a]"
  have g': "gs c' = ?g'" using h(4) gi by simp
  note u = sum_list_map_update[OF h(1), of _ ?a, unfolded gi]
  have ow: "sum_list (map owes ?g') = ?w" using u[of owes] by simp
  have he: "sum_list (map (\<lambda>g. mset (held g)) ?g') + {#v#} =
            sum_list (map (\<lambda>g. mset (held g)) ?g)"
    using u[of "\<lambda>g. mset (held g)"] by simp
  have we: "sum_list (map weight ?g') < sum_list (map weight ?g)"
    using u[of weight] by simp
  have ra: "role_ok K ?cl ?w i ?a" using i by (simp add: role_ok_def)
  have roles: "role_ok K ?cl ?w k (?g' ! k)" if "k < K + 2" for k
    by (rule roles_update[where g = ?g and w = ?w and cl = ?cl, OF d(4) d(2) li ra _ that])
       simp_all
  have "par_inv K S c'"
  proof (rule par_invI)
    show "\<not> panicked c'" using d(1) h(4) by simp
    show "length (gs c') = K + 2" using d(2) g' by simp
    show "0 < K" by (rule d(3))
    show "role_ok K (closed c') (sum_list (map owes (gs c'))) k (gs c' ! k)" if "k < K + 2" for k
      using roles[OF that] h(4) g' ow by simp
    show "wgs c' = [word_of_int (sum_list (map owes (gs c')))]" using d(5) h(4) g' ow by simp
    show "sum_list (map owes (gs c')) < 2 ^ 31" using d(9) g' ow by simp
    show "collector_ok (closed c') (caller c')" using cr(1) h(4) by simp
    show "mset (collected (caller c')) + sum_list (map (\<lambda>g. mset (held g)) (gs c')) = mset S"
      using d(7) h(4) g' he[symmetric] cr(2) by simp
    show "collected (caller c') @ held (gs c' ! 1) @ held (gs c' ! 0) = S" if "K = 1"
    proof -
      from that i have "i = 1" by simp
      with d(8)[OF that] gi h(4) g' d(2) that cr(2) show ?thesis by simp
    qed
  qed
  moreover have "par_effort c' < par_effort c"
    using we g' h(4) cr(3) by (simp add: par_effort_def)
  ultimately show ?thesis by simp
qed

lemma par_step_alone_caller:
  assumes inv: "par_inv K S c" and f: "fire AloneCaller c = Some c'"
  shows "par_inv K S c' \<and> par_effort c' < par_effort c"
proof -
  note d = par_invD[OF inv]
  from f obtain ch where h: "caller_act (caller c) = Recv ch" "ch \<in> closed c"
    "c' = c\<lparr>caller := caller_after (caller c) None\<rparr>"
    by (auto elim: fire_AloneCallerE)
  note cc = collector_closed[OF d(6) h(1,2)]
  have "par_inv K S c'"
    using d cc h(3) by (intro par_invI) simp_all
  moreover have "par_effort c' < par_effort c"
    using cc h(3) by (simp add: par_effort_def)
  ultimately show ?thesis by simp
qed

lemma collector_mono: "collector_ok cl m \<Longrightarrow> cl \<subseteq> cl' \<Longrightarrow> collector_ok cl' m"
  by (cases m rule: collected.cases) auto

lemma coord_closed: "role_ok K cl w (K + 1) g \<Longrightarrow> 1 \<in> cl \<Longrightarrow> w = 0"
  by (cases g rule: owes.cases) (auto simp: role_ok_def)

lemma par_quiet_update:
  assumes inv: "par_inv K S c" and i: "i < K + 2"
    and ha: "held a = held (gs c ! i)"
    and wa: "weight a < weight (gs c ! i)"
    and g': "gs c' = (gs c)[i := a]" and ca: "caller c' = caller c" and np: "\<not> panicked c'"
    and cl: "closed c \<subseteq> closed c'"
    and roles: "\<And>k. k < K + 2 \<Longrightarrow>
       role_ok K (closed c') (sum_list (map owes (gs c)) + owes a - owes (gs c ! i)) k
         ((gs c)[i := a] ! k)"
    and wg: "wgs c' = [word_of_int (sum_list (map owes (gs c)) + owes a - owes (gs c ! i))]"
    and le: "owes a \<le> owes (gs c ! i)"
  shows "par_inv K S c' \<and> par_effort c' < par_effort c"
proof -
  let ?g = "gs c"
  note d = par_invD[OF inv]
  have li: "i < length ?g" using i d(2) by simp
  note u = sum_list_map_update[OF li, of _ a]
  have ow: "sum_list (map owes (?g[i := a])) = sum_list (map owes ?g) + owes a - owes (?g ! i)"
    using u[of owes] by simp
  have he: "sum_list (map (\<lambda>g. mset (held g)) (?g[i := a])) =
            sum_list (map (\<lambda>g. mset (held g)) ?g)"
    using u[of "\<lambda>g. mset (held g)"] ha by simp
  have we: "sum_list (map weight (?g[i := a])) < sum_list (map weight ?g)"
    using u[of weight] wa by simp
  have hk: "held (?g[i := a] ! k) = held (?g ! k)" if "k < K + 2" for k
    using that ha li by (cases "k = i") simp_all
  have "par_inv K S c'"
  proof (rule par_invI)
    show "\<not> panicked c'" by (rule np)
    show "length (gs c') = K + 2" using d(2) g' by simp
    show "0 < K" by (rule d(3))
    show "role_ok K (closed c') (sum_list (map owes (gs c'))) k (gs c' ! k)" if "k < K + 2" for k
      using roles[OF that] g' ow by simp
    show "wgs c' = [word_of_int (sum_list (map owes (gs c')))]" using wg g' ow by simp
    show "sum_list (map owes (gs c')) < 2 ^ 31" using d(9) g' ow le by simp
    show "collector_ok (closed c') (caller c')"
      using collector_mono[OF d(6) cl] ca by simp
    show "mset (collected (caller c')) + sum_list (map (\<lambda>g. mset (held g)) (gs c')) = mset S"
      using d(7) g' he ca by simp
    show "collected (caller c') @ held (gs c' ! 1) @ held (gs c' ! 0) = S" if "K = 1"
      using d(8)[OF that] g' ca hk[of 1] hk[of 0] that by simp
  qed
  moreover have "par_effort c' < par_effort c"
    using we g' ca by (simp add: par_effort_def)
  ultimately show ?thesis by simp
qed

lemma par_step_alone:
  assumes inv: "par_inv K S c" and f: "fire (Alone i) c = Some c'"
  shows "par_inv K S c' \<and> par_effort c' < par_effort c"
proof -
  let ?g = "gs c" and ?cl = "closed c"
  let ?w = "sum_list (map owes ?g)"
  note d = par_invD[OF inv]
  have lc: "K + 1 < K + 2" by simp
  from f show ?thesis
  proof (cases rule: fire_AloneE)
    case (recv ch)
    from recv(2) d(2) have li: "i < K + 2" by simp
    from role_recv[OF d(4)[OF li] li recv(3)]
    have i: "1 \<le> i" "i \<le> K" and ch: "ch = 0" and gi: "?g ! i = Stage 0 1 (WorkerB 0) []"
      by simp_all
    let ?a = "Last (WgDone 0)"
    have ra: "role_ok K ?cl ?w i ?a" using i recv(4) ch by (simp add: role_ok_def)
    show ?thesis
    proof (rule par_quiet_update[OF inv li, where a = ?a])
      show "role_ok K (closed c') (?w + owes ?a - owes (?g ! i)) k (?g[i := ?a] ! k)"
        if "k < K + 2" for k
        using roles_update[where g = ?g and w = ?w and cl = ?cl and cl' = ?cl and w' = ?w,
            OF d(4) d(2) li ra _ that] recv(5) gi by simp
    qed (use recv(1,5) gi d(5) in simp_all)
  next
    case (send ch v)
    from send(2) d(2) have li: "i < K + 2" by simp
    from role_send[OF d(4)[OF li] li send(3)] send(4)
    have i: "1 \<le> i" "i \<le> K" and ch: "ch = 1" and gi: "?g ! i = Stage 0 1 (WorkerB 0) [v]"
      by auto
    from coord_closed[OF d(4)[OF lc]] send(4) ch have "?w = 0" by simp
    with sum_owes_pos[OF send(2)] gi show ?thesis by simp
  next
    case (close_twice ch)
    from close_twice(2) d(2) have li: "i < K + 2" by simp
    from role_close[OF d(4)[OF li] li close_twice(3)] close_twice(4) show ?thesis by auto
  next
    case (close ch)
    from close(2) d(2) have li: "i < K + 2" by simp
    from role_close[OF d(4)[OF li] li close(3)]
    consider (src) "i = 0" "ch = 0" "?g ! i = Source 0 []"
      | (coord) "i = K + 1" "ch = 1" "?g ! i = Last (CloseCh 1)" "?w = 0"
      by auto
    then show ?thesis
    proof cases
      case src
      have ra: "role_ok K (insert 0 ?cl) ?w i Exited" using src by (simp add: role_ok_def)
      have others: "role_ok K (insert 0 ?cl) ?w k (?g ! k)"
        if "k < K + 2" "k \<noteq> i" "role_ok K ?cl ?w k (?g ! k)" for k
        using that src(1) by (intro role_close0) simp_all
      show ?thesis
      proof (rule par_quiet_update[OF inv li, where a = Exited])
        show "role_ok K (closed c') (?w + owes Exited - owes (?g ! i)) k (?g[i := Exited] ! k)"
          if "k < K + 2" for k
          using roles_update[where g = ?g and w = ?w and cl = ?cl and cl' = "insert 0 ?cl"
              and w' = ?w, OF d(4) d(2) li ra others that] close(5) src
          by simp
      qed (use close(1,5) src d(5) in auto)
    next
      case coord
      have ra: "role_ok K (insert 1 ?cl) ?w i Exited" using coord by (simp add: role_ok_def)
      have others: "role_ok K (insert 1 ?cl) ?w k (?g ! k)"
        if "k < K + 2" "k \<noteq> i" "role_ok K ?cl ?w k (?g ! k)" for k
        using that coord(1) by (intro role_close1) simp_all
      show ?thesis
      proof (rule par_quiet_update[OF inv li, where a = Exited])
        show "role_ok K (closed c') (?w + owes Exited - owes (?g ! i)) k (?g[i := Exited] ! k)"
          if "k < K + 2" for k
          using roles_update[where g = ?g and w = ?w and cl = ?cl and cl' = "insert 1 ?cl"
              and w' = ?w, OF d(4) d(2) li ra others that] close(5) coord
          by simp
      qed (use close(1,5) coord d(5) in auto)
    qed
  next
    case (wg_done wg)
    from wg_done(2) d(2) have li: "i < K + 2" by simp
    from role_done[OF d(4)[OF li] li wg_done(3)]
    have i: "1 \<le> i" "i \<le> K" and wg: "wg = 0" and gi: "?g ! i = Last (WgDone 0)"
      and op: "0 \<in> ?cl" by simp_all
    from sum_owes_pos[OF wg_done(2)] gi have pos: "0 < ?w" by simp
    have ra: "role_ok K ?cl (?w - 1) i Exited" using i op by (simp add: role_ok_def)
    have others: "role_ok K ?cl (?w - 1) k (?g ! k)"
      if "k < K + 2" "k \<noteq> i" "role_ok K ?cl ?w k (?g ! k)" for k
      using that(3) pos by (rule role_waiting)
    show ?thesis
    proof (rule par_quiet_update[OF inv li, where a = Exited])
      show "role_ok K (closed c') (?w + owes Exited - owes (?g ! i)) k (?g[i := Exited] ! k)"
        if "k < K + 2" for k
        using roles_update[where g = ?g and w = ?w and cl = ?cl and cl' = ?cl
            and w' = "?w - 1", OF d(4) d(2) li ra others that] wg_done(6) gi
        by simp
    qed (use wg_done(1,6) gi d(5) wg counter_done(1)[OF pos d(9)] in auto)
  next
    case (wg_negative wg)
    from wg_negative(2) d(2) have li: "i < K + 2" by simp
    from role_done[OF d(4)[OF li] li wg_negative(3)]
    have wg: "wg = 0" and gi: "?g ! i = Last (WgDone 0)" by simp_all
    from sum_owes_pos[OF wg_negative(2)] gi have "0 < ?w" by simp
    from counter_done(2)[OF this d(9)] wg_negative(4) wg d(5) show ?thesis by simp
  next
    case (wait wg)
    from wait(2) d(2) have li: "i < K + 2" by simp
    from role_wait[OF d(4)[OF li] li wait(3)]
    have i: "i = K + 1" and wg: "wg = 0" and gi: "?g ! i = Coordinator 0 1"
      and op: "1 \<notin> ?cl" by blast+
    from wait(5) wg d(5) counter_zero[OF sum_owes_nonneg d(9)] have w0: "?w = 0" by simp
    let ?a = "Last (CloseCh 1)"
    have ra: "role_ok K ?cl ?w i ?a" using i op w0 by (simp add: role_ok_def)
    show ?thesis
    proof (rule par_quiet_update[OF inv li, where a = ?a])
      show "role_ok K (closed c') (?w + owes ?a - owes (?g ! i)) k (?g[i := ?a] ! k)"
        if "k < K + 2" for k
        using roles_update[where g = ?g and w = ?w and cl = ?cl and cl' = ?cl and w' = ?w,
            OF d(4) d(2) li ra _ that] wait(6) gi by simp
    qed (use wait(1,6) gi d(5) in simp_all)
  qed
qed

lemma par_step:
  assumes "par_inv K S c" and "fire e c = Some c'"
  shows "par_inv K S c' \<and> par_effort c' < par_effort c"
  using assms par_step_handoff par_step_handoff_caller par_step_alone par_step_alone_caller
  by (cases e) blast+

lemma worker_cases:
  assumes "role_ok K cl w i g" "1 \<le> i" "i \<le> K"
  obtains (sending) v where "g = Stage 0 1 (WorkerB 0) [v]"
    | (receiving) "g = Stage 0 1 (WorkerB 0) []"
    | (leaving) "g = Last (WgDone 0)" "0 \<in> cl"
    | (gone) "g = Exited" "0 \<in> cl"
proof (cases g)
  case (Stage inp out b pending)
  with assms have "g = Stage 0 1 (WorkerB 0) pending" "length pending \<le> 1"
    by (auto simp: role_ok_def)
  then show ?thesis using sending receiving
    by (cases pending) (auto simp: length_Suc_conv)
qed (use assms leaving gone in \<open>auto simp: role_ok_def\<close>)

lemma source_cases:
  assumes "role_ok K cl w 0 g"
  obtains (feeding) xs where "g = Source 0 xs" "0 \<notin> cl" | (gone) "g = Exited" "0 \<in> cl"
  using assms by (cases g) (auto simp: role_ok_def)

lemma coord_cases:
  assumes "role_ok K cl w (K + 1) g"
  obtains (waiting) "g = Coordinator 0 1" "1 \<notin> cl"
    | (closing) "g = Last (CloseCh 1)" "1 \<notin> cl" "w = 0"
    | (gone) "g = Exited" "1 \<in> cl" "w = 0"
  using assms by (cases g) (auto simp: role_ok_def)

lemma sum_owes_zero: "(\<And>k. k < length g \<Longrightarrow> owes (g ! k) = 0) \<Longrightarrow> sum_list (map owes g) = 0"
proof (induction g)
  case Nil
  show ?case by simp
next
  case (Cons x g)
  from Cons.prems[of 0] have "owes x = 0" by simp
  moreover have "sum_list (map owes g) = 0"
  proof (rule Cons.IH)
    fix k assume "k < length g"
    with Cons.prems[of "Suc k"] show "owes (g ! k) = 0" by simp
  qed
  ultimately show ?case by simp
qed

lemma sum_held_empty:
  "(\<And>k. k < length g \<Longrightarrow> held (g ! k) = []) \<Longrightarrow> sum_list (map (\<lambda>g. mset (held g)) g) = {#}"
proof (induction g)
  case Nil
  show ?case by simp
next
  case (Cons x g)
  from Cons.prems[of 0] have "held x = []" by simp
  moreover have "sum_list (map (\<lambda>g. mset (held g)) g) = {#}"
  proof (rule Cons.IH)
    fix k assume "k < length g"
    with Cons.prems[of "Suc k"] show "held (g ! k) = []" by simp
  qed
  ultimately show ?case by simp
qed

lemma owes_zero_everywhere:
  assumes "sum_list (map owes g) = 0" "k < length g"
  shows "owes (g ! k) = 0"
proof (rule ccontr)
  assume "owes (g ! k) \<noteq> 0"
  then have "owes (g ! k) = 1" by (cases "g ! k" rule: owes.cases) auto
  from sum_owes_pos[OF assms(2) this] assms(1) show False by simp
qed

lemma par_all_gone:
  assumes inv: "par_inv K S c" and cl: "1 \<in> closed c"
  shows "k < K + 2 \<Longrightarrow> held (gs c ! k) = []"
proof -
  note d = par_invD[OF inv]
  have lc: "K + 1 < K + 2" by simp
  from coord_closed[OF d(4)[OF lc] cl] have w0: "sum_list (map owes (gs c)) = 0" .
  have worker: "gs c ! i = Exited \<and> 0 \<in> closed c" if "1 \<le> i" "i \<le> K" for i
  proof -
    from that d(2) have li: "i < K + 2" "i < length (gs c)" by simp_all
    from owes_zero_everywhere[OF w0 li(2)] have "owes (gs c ! i) = 0" .
    with d(4)[OF li(1)] that show ?thesis
      by (cases rule: worker_cases) auto
  qed
  from worker[of 1] d(3) have c0: "0 \<in> closed c" by simp
  assume k: "k < K + 2"
  consider "k = 0" | "1 \<le> k" "k \<le> K" | "k = K + 1" using k by linarith
  then show ?thesis
  proof cases
    case 1
    with d(4)[of 0] c0 show ?thesis by (cases rule: source_cases) auto
  next
    case 2
    with worker[of k] show ?thesis by simp
  next
    case 3
    with d(4)[OF lc] show ?thesis by (cases rule: coord_cases) auto
  qed
qed

lemma par_result:
  assumes inv: "par_inv K S c" and r: "returned (caller c)"
  shows "\<exists>ys. caller c = Returned (RList ys) \<and> mset ys = mset S \<and> (K = 1 \<longrightarrow> ys = S)"
proof -
  note d = par_invD[OF inv]
  from d(6) r obtain ys where ys: "caller c = Returned (RList ys)" and cl: "1 \<in> closed c"
    by (cases "caller c" rule: collected.cases) auto
  note gone = par_all_gone[OF inv cl]
  have "sum_list (map (\<lambda>g. mset (held g)) (gs c)) = {#}"
    by (rule sum_held_empty) (simp add: gone d(2))
  with d(7) ys have "mset ys = mset S" by simp
  moreover have "ys = S" if "K = 1"
    using d(8)[OF that] gone[of 0] gone[of 1] that ys by simp
  ultimately show ?thesis using ys by simp
qed

lemma par_progress:
  assumes inv: "par_inv K S c" and nr: "\<not> returned (caller c)"
  shows "\<exists>e c'. fire e c = Some c'"
proof -
  let ?g = "gs c" and ?cl = "closed c"
  note d = par_invD[OF inv]
  have lc: "K + 1 < K + 2" and l0: "0 < K + 2" by simp_all
  have len: "k < K + 2 \<Longrightarrow> k < length ?g" for k using d(2) by simp
  from d(6) nr have rc: "caller_act (caller c) = Recv 1"
    by (cases "caller c" rule: collected.cases) auto
  show ?thesis
  proof (cases "\<exists>i. 1 \<le> i \<and> i \<le> K \<and> ?g ! i \<noteq> Exited")
    case True
    then obtain i where i: "1 \<le> i" "i \<le> K" and ne: "?g ! i \<noteq> Exited" by blast
    then have li: "i < K + 2" by simp
    from d(4)[OF li] i show ?thesis
    proof (cases rule: worker_cases)
      case (sending v)
      then have s: "act (?g ! i) = Send 1 v" by simp
      have "1 \<notin> ?cl"
      proof
        assume "1 \<in> ?cl"
        from coord_closed[OF d(4)[OF lc] this] sum_owes_pos[OF len[OF li]] sending
        show False by simp
      qed
      from fire_HandoffCaller_enabled[OF d(1) len[OF li] s rc this] show ?thesis by blast
    next
      case receiving
      then have r: "act (?g ! i) = Recv 0" by simp
      from d(4)[OF l0] show ?thesis
      proof (cases rule: source_cases)
        case (feeding xs)
        show ?thesis
        proof (cases xs)
          case Nil
          with feeding have "act (?g ! 0) = Close 0" by simp
          from fire_Alone_close_enabled[OF d(1) len[OF l0] this] show ?thesis by blast
        next
          case (Cons v rest)
          with feeding have s: "act (?g ! 0) = Send 0 v" by simp
          from i have "0 \<noteq> i" by simp
          from fire_Handoff_enabled[OF d(1) len[OF l0] len[OF li] this s r feeding(2)]
          show ?thesis by blast
        qed
      next
        case gone
        from fire_Alone_recv_enabled[OF d(1) len[OF li] r gone(2)] show ?thesis by blast
      qed
    next
      case leaving
      then have "act (?g ! i) = Done 0" by simp
      from fire_Alone_done_enabled[OF d(1) len[OF li] this] show ?thesis by blast
    next
      case gone
      with ne show ?thesis by simp
    qed
  next
    case False
    have "owes (?g ! k) = 0" if "k < length ?g" for k
    proof -
      from that d(2) have k: "k < K + 2" by simp
      then consider "k = 0" | "1 \<le> k" "k \<le> K" | "k = K + 1" by linarith
      then show ?thesis
      proof cases
        case 1
        with d(4)[OF l0] show ?thesis by (cases rule: source_cases) auto
      next
        case 2
        with False show ?thesis by auto
      next
        case 3
        with d(4)[OF lc] show ?thesis by (cases rule: coord_cases) auto
      qed
    qed
    then have w0: "sum_list (map owes ?g) = 0" by (rule sum_owes_zero)
    from d(4)[OF lc] show ?thesis
    proof (cases rule: coord_cases)
      case waiting
      then have a: "act (?g ! (K + 1)) = Wait 0" by simp
      from fire_Alone_wait_enabled[OF d(1) len[OF lc] a] d(5) w0 show ?thesis by auto
    next
      case closing
      then have "act (?g ! (K + 1)) = Close 1" by simp
      from fire_Alone_close_enabled[OF d(1) len[OF lc] this] show ?thesis by blast
    next
      case gone
      from fire_AloneCaller_enabled[OF d(1) rc gone(2)] show ?thesis by blast
    qed
  qed
qed

lemma par_init:
  assumes "1 \<le> K" and "K < 2 ^ 31"
  shows "par_inv (nat K) S (Stream_Collect (Stream_Parallel (NewStream S) K))"
proof -
  let ?n = "nat K"
  let ?ws = "replicate ?n (Stage 0 1 (WorkerB 0) [] :: 'a goroutine)"
  let ?g = "Source 0 S # ?ws @ [Coordinator 0 1]"
  let ?c = "Stream_Collect (Stream_Parallel (NewStream S) K)"
  have k: "0 \<le> K" using assms(1) by simp
  have c: "?c = \<lparr>caller = Collecting 1 [], gs = ?g, closed = {}, wgs = [word_of_int K],
                panicked = False\<rparr>"
    using counter_add[OF k assms(2)]
    by (simp add: Stream_Collect_def Stream_Parallel_def NewStream_def)
  have ow: "sum_list (map owes ?g) = K" using assms by (simp add: sum_list_replicate)
  have "sum_list (replicate n ({#} :: 'a multiset)) = {#}" for n
    by (induction n) simp_all
  then have he: "sum_list (map (\<lambda>g. mset (held g)) ?g) = mset S"
    by simp
  have roles: "role_ok ?n {} w k (?g ! k)" if k: "k < ?n + 2" for k w
  proof -
    consider "k = 0" | "1 \<le> k" "k \<le> ?n" | "k = ?n + 1" using k by linarith
    then show ?thesis
    proof cases
      case 1
      then show ?thesis by (simp add: role_ok_def)
    next
      case 2
      then obtain j where "k = Suc j" "j < ?n" by (cases k) auto
      then show ?thesis by (simp add: role_ok_def nth_append)
    next
      case 3
      then show ?thesis by (simp add: role_ok_def nth_append)
    qed
  qed
  show ?thesis
    unfolding c
  proof (rule par_invI)
    show "collected (caller \<lparr>caller = Collecting 1 [], gs = ?g, closed = {},
            wgs = [word_of_int K], panicked = False\<rparr>) @
        held (gs \<lparr>caller = Collecting 1 [], gs = ?g, closed = {}, wgs = [word_of_int K],
            panicked = False\<rparr> ! 1) @
        held (gs \<lparr>caller = Collecting 1 [], gs = ?g, closed = {}, wgs = [word_of_int K],
            panicked = False\<rparr> ! 0) = S"
      if "?n = 1"
      using that by simp
  qed (use assms ow he roles in simp_all)
qed

lemma returns_such_run:
  "returns_such c0 Q \<Longrightarrow> run es c0 = Some c \<Longrightarrow> caller c = Returned r \<Longrightarrow> Q r"
  unfolding returns_such_def by (metis caller.inject returned.simps(1))

text \<open>
  Claim C6, as amended. For every finite sequence \<open>S\<close> and worker count \<open>1 \<le> K < 2^31\<close>,
  \<^verbatim>\<open>Collect\<close> of \<^verbatim>\<open>Parallel(K)\<close> over \<^verbatim>\<open>NewStream(S)\<close> returns, under every interleaving of
  the source, the workers, the coordinator and the caller, a permutation of \<open>S\<close> (the same
  multiset: nothing dropped, nothing duplicated); for \<open>K = 1\<close> it returns exactly \<open>S\<close> in
  order. The bound is the WaitGroup's: its counter is a signed 32-bit integer.
\<close>

theorem Parallel_Collect:
  assumes "1 \<le> K" and "K < 2 ^ 31"
  shows "returns_such (Stream_Collect (Stream_Parallel (NewStream S) K))
           (\<lambda>r. \<exists>ys. r = RList ys \<and> mset ys = mset S) \<and>
         returns (Stream_Collect (Stream_Parallel (NewStream S) 1)) (RList S)"
proof
  show "returns_such (Stream_Collect (Stream_Parallel (NewStream S) K))
           (\<lambda>r. \<exists>ys. r = RList ys \<and> mset ys = mset S)"
  proof (rule returns_such_by_invariant[where I = "par_inv (nat K) S" and m = par_effort])
    show "par_inv (nat K) S (Stream_Collect (Stream_Parallel (NewStream S) K))"
      by (rule par_init[OF assms])
  next
    fix c :: "'a config" and e c'
    assume "par_inv (nat K) S c" "fire e c = Some c'"
    then show "par_inv (nat K) S c' \<and> par_effort c' < par_effort c" by (rule par_step)
  next
    fix c :: "'a config"
    assume "par_inv (nat K) S c"
    then show "\<not> panicked c" by (rule par_invD(1))
  next
    fix c :: "'a config"
    assume "par_inv (nat K) S c" "returned (caller c)"
    from par_result[OF this]
    show "\<exists>r. caller c = Returned r \<and> (\<exists>ys. r = RList ys \<and> mset ys = mset S)" by blast
  next
    fix c :: "'a config"
    assume "par_inv (nat K) S c" "\<not> returned (caller c)"
    then show "\<exists>e c'. fire e c = Some c'" by (rule par_progress)
  qed
next
  show "returns (Stream_Collect (Stream_Parallel (NewStream S) 1)) (RList S)"
  proof (rule returns_by_invariant[where I = "par_inv 1 S" and m = par_effort])
    show "par_inv 1 S (Stream_Collect (Stream_Parallel (NewStream S) 1))"
      using par_init[of 1 S] by simp
  next
    fix c :: "'a config" and e c'
    assume "par_inv 1 S c" "fire e c = Some c'"
    then show "par_inv 1 S c' \<and> par_effort c' < par_effort c" by (rule par_step)
  next
    fix c :: "'a config"
    assume "par_inv 1 S c"
    then show "\<not> panicked c" by (rule par_invD(1))
  next
    fix c :: "'a config"
    assume "par_inv 1 S c" "returned (caller c)"
    from par_result[OF this] show "caller c = Returned (RList S)" by simp
  next
    fix c :: "'a config"
    assume "par_inv 1 S c" "\<not> returned (caller c)"
    then show "\<exists>e c'. fire e c = Some c'" by (rule par_progress)
  qed
qed

theorem Parallel_Collect_witness:
  "(1 :: int) \<le> 2 \<and> (2 :: int) < 2 ^ 31 \<and>
   map_option caller
     (run [Handoff 0 1, Handoff 0 2, HandoffCaller 2, HandoffCaller 1, Alone 0, Alone 1, Alone 2,
           Alone 1, Alone 2, Alone 3, Alone 3, AloneCaller]
        (Stream_Collect (Stream_Parallel (NewStream [1, 2 :: int]) 2))) =
     Some (Returned (RList [2, 1])) \<and>
   mset [2, 1 :: int] = mset [1, 2] \<and>
   map_option caller
     (run [Handoff 0 1, HandoffCaller 1, Handoff 0 1, HandoffCaller 1, Alone 0, Alone 1, Alone 1,
           Alone 2, Alone 2, AloneCaller]
        (Stream_Collect (Stream_Parallel (NewStream [1, 2 :: int]) 1))) =
     Some (Returned (RList [1, 2]))"
proof -
  have k: "(1 :: int) \<le> 2" and b: "(2 :: int) < 2 ^ 31" by simp_all
  obtain c2 where r2: "run [Handoff 0 1, Handoff 0 2, HandoffCaller 2, HandoffCaller 1, Alone 0,
           Alone 1, Alone 2, Alone 1, Alone 2, Alone 3, Alone 3, AloneCaller]
        (Stream_Collect (Stream_Parallel (NewStream [1, 2 :: int]) 2)) = Some c2"
      and e2: "caller c2 = Returned (RList [2, 1])"
    by (simp add: stream_defs fire_def eval_nat_numeral WaitGroup_Add_def negative_counter_def)
  obtain c1 where r1: "run [Handoff 0 1, HandoffCaller 1, Handoff 0 1, HandoffCaller 1, Alone 0,
           Alone 1, Alone 1, Alone 2, Alone 2, AloneCaller]
        (Stream_Collect (Stream_Parallel (NewStream [1, 2 :: int]) 1)) = Some c1"
      and d1: "returned (caller c1)"
    by (simp add: stream_defs fire_def eval_nat_numeral WaitGroup_Add_def negative_counter_def)
  note inst = Parallel_Collect[OF k b, of "[1, 2 :: int]"]
  from inst have a: "returns_such (Stream_Collect (Stream_Parallel (NewStream [1, 2 :: int]) 2))
           (\<lambda>r. \<exists>ys. r = RList ys \<and> mset ys = mset [1, 2 :: int])"
    and b': "returns (Stream_Collect (Stream_Parallel (NewStream [1, 2 :: int]) 1)) (RList [1, 2])"
    by simp_all
  from returns_such_run[OF a r2 e2] returns_run[OF b' r1 d1] r1 r2 e2 k
  show ?thesis by simp
qed

lemma panicked_Parallel:
  "panicked (Stream_Collect (Stream_Parallel s K)) \<longleftrightarrow>
     crashed s \<or> negative_counter (WaitGroup_Add 0 K)"
  by (simp add: Stream_Collect_def Stream_Parallel_def Let_def)

lemma returns_such_not_panicked: "returns_such c0 Q \<Longrightarrow> \<not> panicked c0"
  unfolding returns_such_def using run.simps(1) by blast

text \<open>
  Claim C6 as stated, for every \<open>K \<ge> 1\<close>, fails at \<open>K = 2^31\<close>: \<^verbatim>\<open>wg.Add(workers)\<close> makes
  the 32-bit counter negative and panics before any worker is started, so \<^verbatim>\<open>Collect\<close> is
  never reached.
\<close>

theorem Parallel_Collect_counterexample:
  "(1 :: int) \<le> 2147483648 \<and>
   panicked (Stream_Collect (Stream_Parallel (NewStream [1 :: int]) 2147483648)) \<and>
   \<not> returns_such (Stream_Collect (Stream_Parallel (NewStream [1 :: int]) 2147483648))
       (\<lambda>r. \<exists>ys. r = RList ys \<and> mset ys = mset [1])"
proof -
  have "negative_counter (WaitGroup_Add 0 2147483648)"
    by (simp add: WaitGroup_Add_def negative_counter_def)
  then have p: "panicked (Stream_Collect (Stream_Parallel (NewStream [1 :: int]) 2147483648))"
    by (simp only: panicked_Parallel simp_thms)
  with returns_such_not_panicked show ?thesis by auto
qed

end
